theory Spec2Isabelle
  imports
    Complex_Main
    "HOL-Library.Word"
    "HOL-Library.Sublist"
    "HOL-Library.AList"
    "HOL-Library.Char_ord"
    "HOL-Library.List_Lexorder"
    "HOL-Library.Log_Nat"
begin

section \<open>Values: bytes, paths, exceptions\<close>

text \<open>
  The program (\<^verbatim>\<open>LP1.py\<close>) archives a file or a directory tree into one of the four
  formats \<^verbatim>\<open>.bz2\<close>, \<^verbatim>\<open>.zst\<close>, \<^verbatim>\<open>.tar.bz2\<close>, \<^verbatim>\<open>.tar.zst\<close> and extracts such archives.
  Its own logic is the suffix dispatch, the directory walk, the chunk loops that drive
  the progress bar, and the sequencing of file-system effects. The codecs and the tar
  container are external libraries; they enter the model as a record of functions
  (\<open>ext\<close> below), and every theorem says which property of them it relies on.

  A \<^verbatim>\<open>pathlib.Path\<close> is the list of its components, a byte string is a list of 8-bit
  words, and a Python exception is a value of \<open>exn\<close>: a call that may raise returns a
  \<open>result\<close>.
\<close>

type_synonym byte = "8 word"
type_synonym bytes = "byte list"
type_synonym path = "string list"

datatype exn =
    FileNotFoundError
  | FileExistsError
  | IsADirectoryError
  | NotADirectoryError
  | ZeroDivisionError
  | OverflowError
  | EOFError
  | ZstdError
  | OSError
  | ReadError

datatype 'a result = Ok 'a | Raised exn

section \<open>The file system\<close>

text \<open>
  A file system is a tree: a regular file holds its bytes, a directory holds its listing,
  in the order in which the operating system enumerates it. Symbolic links, permissions
  and the other attributes of a file are not modelled, so the only failures of a file
  operation are the structural ones (a missing parent, a directory where a file is
  expected and the reverse).
\<close>

datatype node = File bytes | Dir "(string \<times> node) list"

fun lookup :: "node \<Rightarrow> path \<Rightarrow> node option" where
  "lookup n [] = Some n"
| "lookup (File b) (c # cs) = None"
| "lookup (Dir es) (c # cs) = (case map_of es c of None \<Rightarrow> None | Some m \<Rightarrow> lookup m cs)"

text \<open>\<^verbatim>\<open>Path.exists()\<close>, \<^verbatim>\<open>Path.is_file()\<close>, \<^verbatim>\<open>Path.is_dir()\<close>: none of them raises.\<close>

definition exists :: "node \<Rightarrow> path \<Rightarrow> bool" where
  "exists tree p = (case lookup tree p of None \<Rightarrow> False | Some n \<Rightarrow> True)"

definition is_file :: "node \<Rightarrow> path \<Rightarrow> bool" where
  "is_file tree p = (case lookup tree p of Some (File b) \<Rightarrow> True | _ \<Rightarrow> False)"

definition is_dir :: "node \<Rightarrow> path \<Rightarrow> bool" where
  "is_dir tree p = (case lookup tree p of Some (Dir es) \<Rightarrow> True | _ \<Rightarrow> False)"

text \<open>\<^verbatim>\<open>Path.name\<close>: the last component, the empty string when there is none.\<close>

definition path_name :: "path \<Rightarrow> string" where
  "path_name p = (if p = [] then [] else last p)"

text \<open>\<^verbatim>\<open>Path.read_bytes()\<close> and \<^verbatim>\<open>Path.stat().st_size\<close>.\<close>

definition read_bytes :: "node \<Rightarrow> path \<Rightarrow> bytes result" where
  "read_bytes tree p =
     (case lookup tree p of
        None \<Rightarrow> Raised FileNotFoundError
      | Some (Dir es) \<Rightarrow> Raised IsADirectoryError
      | Some (File b) \<Rightarrow> Ok b)"

definition st_size :: "node \<Rightarrow> path \<Rightarrow> nat result" where
  "st_size tree p =
     (case lookup tree p of
        None \<Rightarrow> Raised FileNotFoundError
      | Some (Dir es) \<Rightarrow> Ok 0
      | Some (File b) \<Rightarrow> Ok (length b))"

text \<open>
  \<^verbatim>\<open>Path.write_bytes(data)\<close> opens the file for writing (creating or truncating it) and
  writes the data. It creates no directory: a missing parent is \<open>FileNotFoundError\<close>.
  A new file is listed last in its directory.
\<close>

fun write_bytes :: "node \<Rightarrow> path \<Rightarrow> bytes \<Rightarrow> node result" where
  "write_bytes (File b) [] data = Ok (File data)"
| "write_bytes (Dir es) [] data = Raised IsADirectoryError"
| "write_bytes (File b) (c # cs) data = Raised NotADirectoryError"
| "write_bytes (Dir es) (c # cs) data =
     (case map_of es c of
        None \<Rightarrow>
          if cs = [] then Ok (Dir (es @ [(c, File data)])) else Raised FileNotFoundError
      | Some m \<Rightarrow>
          (case write_bytes m cs data of
             Raised e \<Rightarrow> Raised e
           | Ok m' \<Rightarrow> Ok (Dir (AList.update c m' es))))"

text \<open>
  \<^verbatim>\<open>Path.mkdir(parents=True, exist_ok=True)\<close>: missing directories are created along the
  path, an existing directory is accepted, and a regular file on the way is an error
  (\<open>FileExistsError\<close> when it is the path itself, \<open>NotADirectoryError\<close> when it is
  an ancestor). Nothing is created when the call fails.
\<close>

fun mkchain :: "path \<Rightarrow> node" where
  "mkchain [] = Dir []"
| "mkchain (c # cs) = Dir [(c, mkchain cs)]"

fun mkdir :: "node \<Rightarrow> path \<Rightarrow> node result" where
  "mkdir (Dir es) [] = Ok (Dir es)"
| "mkdir (File b) [] = Raised FileExistsError"
| "mkdir (File b) (c # cs) = Raised NotADirectoryError"
| "mkdir (Dir es) (c # cs) =
     (case map_of es c of
        None \<Rightarrow> Ok (Dir (es @ [(c, mkchain cs)]))
      | Some m \<Rightarrow>
          (case mkdir m cs of
             Raised e \<Rightarrow> Raised e
           | Ok m' \<Rightarrow> Ok (Dir (AList.update c m' es))))"

section \<open>Strings: lower-casing, suffix tests, stems\<close>

text \<open>
  \<^verbatim>\<open>str.lower()\<close> on the ASCII letters; every other character is left as it is. (Python
  lower-cases non-ASCII letters too; none of them becomes a character of the four
  suffixes, which are ASCII.)
\<close>

definition lower_char :: "char \<Rightarrow> char" where
  "lower_char c =
     (let n = (of_char c :: nat) in if 65 \<le> n \<and> n \<le> 90 then char_of (n + 32) else c)"

definition lower :: "string \<Rightarrow> string" where
  "lower s = map lower_char s"

text \<open>\<^verbatim>\<open>s.endswith(suf)\<close>.\<close>

definition endswith :: "string \<Rightarrow> string \<Rightarrow> bool" where
  "endswith s suf = (length suf \<le> length s \<and> drop (length s - length suf) s = suf)"

text \<open>
  \<^verbatim>\<open>Path.stem\<close> (Python 3.14, the version that ships \<^verbatim>\<open>compression.zstd\<close>): the name up
  to its last dot, unless that leaves nothing but dots.
\<close>

fun rfind_dot :: "string \<Rightarrow> nat option" where
  "rfind_dot [] = None"
| "rfind_dot (c # cs) =
     (case rfind_dot cs of
        Some i \<Rightarrow> Some (Suc i)
      | None \<Rightarrow> if c = CHR ''.'' then Some 0 else None)"

definition stem :: "path \<Rightarrow> string" where
  "stem p =
     (let name = path_name p in
      case rfind_dot name of
        None \<Rightarrow> name
      | Some i \<Rightarrow>
          if dropWhile (\<lambda>c. c = CHR ''.'') (take i name) \<noteq> [] then take i name else name)"

section \<open>Format dispatch\<close>

text \<open>
  Lines 119--135 of \<^verbatim>\<open>archive\<close> and 217--233 of \<^verbatim>\<open>extract\<close> are the same chain of
  suffix tests on the lower-cased name; \<open>detect_format\<close> is that chain, and
  \<open>UnsupportedFormat\<close> stands for its last branch, which prints the message
  "only the formats .bz2, .zst, .tar.bz2, .tar.zst are supported" and returns.
\<close>

datatype archive_type = Tar | Single
datatype compression = Zst | Bz2

datatype error =
    SourceNotFound path
  | UnsupportedFormat
  | DirectoryRequiresTar
  | ArchiveFailed exn
  | ExtractFailed exn

definition detect_format :: "string \<Rightarrow> error + archive_type \<times> compression" where
  "detect_format name =
     (if endswith name ''.tar.zst'' \<or> endswith name ''.tar.bz2'' then
        (if endswith name ''.tar.zst'' then Inr (Tar, Zst) else Inr (Tar, Bz2))
      else if endswith name ''.zst'' then Inr (Single, Zst)
      else if endswith name ''.bz2'' then Inr (Single, Bz2)
      else Inl UnsupportedFormat)"

definition archive_format :: "path \<Rightarrow> error + archive_type \<times> compression" where
  "archive_format dst = (let dst_name = lower (path_name dst) in detect_format dst_name)"

definition extract_format :: "path \<Rightarrow> error + archive_type \<times> compression" where
  "extract_format archive_path =
     (let archive_name = lower (path_name archive_path) in detect_format archive_name)"

section \<open>The state of a run and its output\<close>

text \<open>
  An operation acts on the file system and prints to the two output streams. The
  standard output is the list of what was printed: a progress bar (the prefix, the
  numbers of filled and empty cells, the fraction, and the two counts shown), the empty
  \<^verbatim>\<open>print()\<close> that ends a bar, or a message. The error stream is the list of the
  errors reported. The prefixes of the bars are Russian words in the source:
  \<open>Archiving\<close> is "Arkhivatsiya: ", \<open>Compressing\<close> is "Szhatie: ", \<open>Unpacking\<close> is
  "Raspakovka: ", \<open>UnpackingZstd\<close> is "Raspakovka zstd: ", \<open>UnpackingTar\<close> is
  "Raspakovka tar: ".
\<close>

datatype label = Archiving | Compressing | Unpacking | UnpackingZstd | UnpackingTar

datatype message =
    FilesToArchive nat
  | FileSize nat
  | ArchiveCreated path nat
  | ArchiveBenchmark nat nat
  | ExtractedTo path
  | ExtractBenchmark

datatype out_event =
    Bar label nat nat rat int int
  | Newline
  | Message message

record world =
  fs :: node
  stdout :: "out_event list"
  stderr :: "error list"

type_synonym 'a io = "world \<Rightarrow> 'a result \<times> world"

definition io_return :: "'a \<Rightarrow> 'a io" where
  "io_return x w = (Ok x, w)"

definition io_bind :: "'a io \<Rightarrow> ('a \<Rightarrow> 'b io) \<Rightarrow> 'b io" where
  "io_bind m f w = (case m w of (Raised e, w') \<Rightarrow> (Raised e, w') | (Ok x, w') \<Rightarrow> f x w')"

definition io_lift :: "'a result \<Rightarrow> 'a io" where
  "io_lift r w = (r, w)"

definition io_when :: "bool \<Rightarrow> unit io \<Rightarrow> unit io" where
  "io_when b m = (if b then m else io_return ())"

definition print_out :: "out_event \<Rightarrow> unit io" where
  "print_out ev w = (Ok (), w\<lparr>stdout := stdout w @ [ev]\<rparr>)"

definition print_err :: "error \<Rightarrow> unit io" where
  "print_err e w = (Ok (), w\<lparr>stderr := stderr w @ [e]\<rparr>)"

definition io_read_bytes :: "path \<Rightarrow> bytes io" where
  "io_read_bytes p w = (read_bytes (fs w) p, w)"

definition io_st_size :: "path \<Rightarrow> nat io" where
  "io_st_size p w = (st_size (fs w) p, w)"

definition io_write_bytes :: "path \<Rightarrow> bytes \<Rightarrow> unit io" where
  "io_write_bytes p data w =
     (case write_bytes (fs w) p data of
        Raised e \<Rightarrow> (Raised e, w)
      | Ok t \<Rightarrow> (Ok (), w\<lparr>fs := t\<rparr>))"

definition io_mkdir :: "path \<Rightarrow> unit io" where
  "io_mkdir p w =
     (case mkdir (fs w) p of
        Raised e \<Rightarrow> (Raised e, w)
      | Ok t \<Rightarrow> (Ok (), w\<lparr>fs := t\<rparr>))"

section \<open>The progress bar\<close>

text \<open>
  The fraction \<^verbatim>\<open>cur / total\<close> and the product \<^verbatim>\<open>width * progress\<close> are Python floats,
  that is IEEE 754 doubles. A finite double is the rational number it denotes (a negative
  zero is 0); the result of an operation is the exact result rounded to the nearest
  double, ties to the even significand. \<open>floor_log2 x\<close> is the binary exponent of a
  positive \<open>x\<close>, \<open>ulp_exponent x\<close> the exponent of the last of the 53 bits of its
  significand (\<open>- 1074\<close> for the subnormal numbers), and \<open>double_round x\<close> the nearest
  double when the exponent range is not bounded above.
\<close>

definition floor_log2 :: "rat \<Rightarrow> int" where
  "floor_log2 x =
     (let (a, b) = quotient_of x;
          d = bitlen a - bitlen b
      in if 2 powi d \<le> x then d else d - 1)"

definition round_half_even :: "rat \<Rightarrow> int" where
  "round_half_even m =
     (let f = \<lfloor>m\<rfloor>;
          r = m - of_int f
      in if r < 1 / 2 then f
         else if 1 / 2 < r then f + 1
         else if even f then f else f + 1)"

definition ulp_exponent :: "rat \<Rightarrow> int" where
  "ulp_exponent x = max (floor_log2 \<bar>x\<bar> - 52) (- 1074)"

definition double_round :: "rat \<Rightarrow> rat" where
  "double_round x =
     (if x = 0 then 0
      else of_int (round_half_even (x / 2 powi ulp_exponent x)) * 2 powi ulp_exponent x)"

text \<open>
  A float is a finite double or an infinity (no operation of the program yields a NaN).
  A result that rounds to \<open>2 ^ 1024\<close> or beyond in magnitude overflows: the product of
  two floats is then an infinity, and the quotient of two integers raises
  \<^verbatim>\<open>OverflowError\<close> (\<^verbatim>\<open>int / int\<close> is correctly rounded for integers of any size, and
  raises \<^verbatim>\<open>ZeroDivisionError\<close> on a zero divisor). \<^verbatim>\<open>int(x)\<close> truncates towards zero and
  raises \<^verbatim>\<open>OverflowError\<close> on an infinity.
\<close>

datatype pyfloat = Finite rat | PosInf | NegInf

definition to_double :: "rat \<Rightarrow> pyfloat" where
  "to_double x =
     (let y = double_round x
      in if 2 ^ 1024 \<le> y then PosInf else if y \<le> - (2 ^ 1024) then NegInf else Finite y)"

definition py_truediv :: "int \<Rightarrow> int \<Rightarrow> rat result" where
  "py_truediv a b =
     (if b = 0 then Raised ZeroDivisionError
      else
        (case to_double (of_int a / of_int b) of
           Finite q \<Rightarrow> Ok q
         | PosInf \<Rightarrow> Raised OverflowError
         | NegInf \<Rightarrow> Raised OverflowError))"

definition py_float_mul :: "rat \<Rightarrow> rat \<Rightarrow> pyfloat" where
  "py_float_mul x y = to_double (x * y)"

definition py_int :: "pyfloat \<Rightarrow> int result" where
  "py_int x =
     (case x of
        Finite v \<Rightarrow> Ok (if 0 \<le> v then \<lfloor>v\<rfloor> else \<lceil>v\<rceil>)
      | PosInf \<Rightarrow> Raised OverflowError
      | NegInf \<Rightarrow> Raised OverflowError)"

text \<open>
  \<^verbatim>\<open>s * n\<close> for a one-character string \<open>s\<close>: the length of the result, which is 0 for a
  negative \<open>n\<close>. The count must fit the index type (64 bits, signed), or the
  multiplication raises \<^verbatim>\<open>OverflowError\<close>. The memory of the machine is not part of the
  model: a string that fits the index type is built.
\<close>

definition py_str_repeat :: "int \<Rightarrow> nat result" where
  "py_str_repeat n =
     (if n < - (2 ^ 63) \<or> 2 ^ 63 \<le> n then Raised OverflowError else Ok (nat n))"

text \<open>
  \<^verbatim>\<open>print_progress(cur, total, prefix, width=50)\<close>; no caller passes a width. The bar
  printed is recorded by its prefix, the numbers of filled and of empty cells, the
  fraction, and the two counts.
\<close>

definition print_progress :: "int \<Rightarrow> int \<Rightarrow> label \<Rightarrow> unit io" where
  "print_progress cur tot pfx =
     (if tot \<le> 0 then io_return ()
      else
        io_bind (io_lift (py_truediv cur tot)) (\<lambda>q.
          let progress = min q 1 in
          io_bind (io_lift (py_int (py_float_mul 50 progress))) (\<lambda>filled.
          io_bind (io_lift (py_str_repeat filled)) (\<lambda>full.
          io_bind (io_lift (py_str_repeat (50 - filled))) (\<lambda>blank.
            print_out (Bar pfx full blank progress cur tot))))))"

section \<open>Walking a directory and building a tar stream\<close>

text \<open>
  \<^verbatim>\<open>os.walk(path)\<close> yields, from the top down, one triple per directory: its path, the names of
  its subdirectories and the names of its files (here each with the bytes a later read
  of the file finds). It yields nothing for a path that is not a directory.
\<close>

definition file_items :: "(string \<times> node) list \<Rightarrow> (string \<times> bytes) list" where
  "file_items es = concat (map (\<lambda>(c, m). case m of File b \<Rightarrow> [(c, b)] | Dir ds \<Rightarrow> []) es)"

definition is_Dir :: "node \<Rightarrow> bool" where
  "is_Dir m = (case m of File b \<Rightarrow> False | Dir ds \<Rightarrow> True)"

fun os_walk :: "path \<Rightarrow> node \<Rightarrow> (path \<times> string list \<times> (string \<times> bytes) list) list" where
  "os_walk dirpath (File b) = []"
| "os_walk dirpath (Dir es) =
     (dirpath, map fst (filter (\<lambda>(c, m). is_Dir m) es), file_items es)
       # concat (map (\<lambda>(c, m). os_walk (dirpath @ [c]) m) (filter (\<lambda>(c, m). is_Dir m) es))"

text \<open>\<^verbatim>\<open>count_files(path)\<close>.\<close>

definition count_files :: "node \<Rightarrow> path \<Rightarrow> nat" where
  "count_files tree p =
     (if is_file tree p then 1
      else
        (case lookup tree p of
           None \<Rightarrow> 0
         | Some n \<Rightarrow> sum_list (map (\<lambda>(dirpath, dirs, files). length files) (os_walk p n))))"

text \<open>
  A tar stream is the list of its members in the order in which they were added: the
  name of a member (the components of its path in the archive) with the bytes of a
  regular file, or the mark of a directory.
\<close>

datatype member = TFile bytes | TDir

text \<open>
  \<^verbatim>\<open>create_tar_archive(src, buf)\<close>: the members added to the in-memory tar file. A file
  is added under its base name; for a directory, every file that the walk finds is added
  under its path relative to \<open>src\<close> (\<^verbatim>\<open>file_path.relative_to(src)\<close>).
\<close>

definition create_tar_archive :: "node \<Rightarrow> path \<Rightarrow> (path \<times> member) list" where
  "create_tar_archive tree src =
     (case lookup tree src of
        Some (File b) \<Rightarrow> [([path_name src], TFile b)]
      | Some (Dir es) \<Rightarrow>
          concat (map (\<lambda>(dirpath, dirs, files).
                         map (\<lambda>(f, b). (drop (length src) (dirpath @ [f]), TFile b)) files)
                      (os_walk src (Dir es)))
      | None \<Rightarrow> [])"

text \<open>
  \<^verbatim>\<open>TarFile.add(name, arcname)\<close> of the tar library, with its default
  \<^verbatim>\<open>recursive=True\<close>: the archive's own file is skipped; a file is one member; a
  directory is a member of its own followed by its entries, added in sorted order, each
  under \<^verbatim>\<open>arcname/entry\<close>.
\<close>

function tar_add :: "path \<Rightarrow> path \<Rightarrow> path \<Rightarrow> node \<Rightarrow> (path \<times> member) list" where
  "tar_add out p arcname (File b) = (if p = out then [] else [(arcname, TFile b)])"
| "tar_add out p arcname (Dir es) =
     (if p = out then []
      else (arcname, TDir)
             # concat (map (\<lambda>(c, m). tar_add out (p @ [c]) (arcname @ [c]) m)
                           (sort_key fst es)))"
  by pat_completeness auto

termination tar_add
  by (relation "measure (\<lambda>(out, p, arcname, n). size n)")
     (auto simp: less_Suc_eq_le intro!: size_list_estimation')

section \<open>The external libraries\<close>

text \<open>
  What the program calls of \<^verbatim>\<open>compression.zstd\<close>, \<^verbatim>\<open>bz2\<close> and \<^verbatim>\<open>tarfile\<close>.
  \<^verbatim>\<open>ZstdCompressor\<close> and \<^verbatim>\<open>ZstdDecompressor\<close> are stateful objects: a call takes the
  state and returns the output with the next state. Decompression and the reading of a
  tar stream raise on malformed input.
\<close>

record ('c, 'd) ext =
  zstd_compressor :: 'c
  zstd_compress :: "'c \<Rightarrow> bytes \<Rightarrow> bytes \<times> 'c"
  zstd_flush :: "'c \<Rightarrow> bytes"
  zstd_decompressor :: 'd
  zstd_decompress :: "'d \<Rightarrow> bytes \<Rightarrow> (bytes \<times> 'd) result"
  bz2_compress :: "bytes \<Rightarrow> bytes"
  bz2_decompress :: "bytes \<Rightarrow> bytes result"
  tar_write :: "(path \<times> member) list \<Rightarrow> bytes"
  tar_read :: "bytes \<Rightarrow> (path \<times> member) list result"

section \<open>Compressing and decompressing\<close>

text \<open>\<^verbatim>\<open>range(0, stop, step)\<close> for a positive step.\<close>

definition py_range :: "nat \<Rightarrow> nat \<Rightarrow> nat list" where
  "py_range stop step = map (\<lambda>k. k * step) [0..<(stop + step - 1) div step]"

text \<open>
  The loop of \<^verbatim>\<open>compress_with_zstd\<close> over the offsets \<open>i\<close>: the chunk
  \<^verbatim>\<open>data[i:i + 8192]\<close> goes to the compressor, its output is appended, and the bar is
  printed.
\<close>

fun compress_loop ::
  "('c, 'd) ext \<Rightarrow> bytes \<Rightarrow> nat list \<Rightarrow> 'c \<Rightarrow> bytes \<Rightarrow> ('c \<times> bytes) io" where
  "compress_loop L data [] compressor compressed = io_return (compressor, compressed)"
| "compress_loop L data (i # rest) compressor compressed =
     (let chunk = take 8192 (drop i data);
          (out, compressor') = zstd_compress L compressor chunk
      in io_bind
           (print_progress (int (min (i + 8192) (length data))) (int (length data)) Compressing)
           (\<lambda>_. compress_loop L data rest compressor' (compressed @ out)))"

definition compress_with_zstd :: "('c, 'd) ext \<Rightarrow> bytes \<Rightarrow> path \<Rightarrow> bool \<Rightarrow> unit io" where
  "compress_with_zstd L data output_path show_progress =
     (let compressor = zstd_compressor L in
      if show_progress then
        io_bind (compress_loop L data (py_range (length data) 8192) compressor [])
          (\<lambda>(compressor', compressed).
             let compressed = compressed @ zstd_flush L compressor' in
             io_bind (print_progress (int (length data)) (int (length data)) Compressing) (\<lambda>_.
             io_bind (print_out Newline) (\<lambda>_.
             io_write_bytes output_path compressed)))
      else
        (let (out, compressor') = zstd_compress L compressor data;
             compressed = out @ zstd_flush L compressor'
         in io_write_bytes output_path compressed))"

definition compress_with_bz2 :: "('c, 'd) ext \<Rightarrow> bytes \<Rightarrow> path \<Rightarrow> bool \<Rightarrow> unit io" where
  "compress_with_bz2 L data output_path show_progress =
     (if show_progress then
        (let compressed = bz2_compress L data in
         io_bind (print_progress (int (length data)) (int (length data)) Compressing) (\<lambda>_.
         io_bind (print_out Newline) (\<lambda>_.
         io_write_bytes output_path compressed)))
      else
        (let compressed = bz2_compress L data in io_write_bytes output_path compressed))"

fun decompress_loop ::
  "('c, 'd) ext \<Rightarrow> bytes \<Rightarrow> nat list \<Rightarrow> 'd \<Rightarrow> bytes \<Rightarrow> ('d \<times> bytes) io" where
  "decompress_loop L data [] decompressor decompressed = io_return (decompressor, decompressed)"
| "decompress_loop L data (i # rest) decompressor decompressed =
     (let chunk = take 8192 (drop i data) in
      io_bind (io_lift (zstd_decompress L decompressor chunk)) (\<lambda>(out, decompressor').
      io_bind
        (print_progress (int (min (i + 8192) (length data))) (int (length data)) Unpacking)
        (\<lambda>_. decompress_loop L data rest decompressor' (decompressed @ out))))"

definition decompress_zstd :: "('c, 'd) ext \<Rightarrow> path \<Rightarrow> bool \<Rightarrow> bytes io" where
  "decompress_zstd L input_path show_progress =
     (let decompressor = zstd_decompressor L in
      io_bind (io_read_bytes input_path) (\<lambda>data.
        if show_progress then
          io_bind (decompress_loop L data (py_range (length data) 8192) decompressor [])
            (\<lambda>(decompressor', decompressed).
               io_bind (print_progress (int (length data)) (int (length data)) Unpacking) (\<lambda>_.
               io_bind (print_out Newline) (\<lambda>_.
               io_return decompressed)))
        else
          io_bind (io_lift (zstd_decompress L decompressor data)) (\<lambda>(out, decompressor').
          io_return out)))"

definition decompress_bz2 :: "('c, 'd) ext \<Rightarrow> path \<Rightarrow> bool \<Rightarrow> bytes io" where
  "decompress_bz2 L input_path show_progress =
     io_bind (io_read_bytes input_path) (\<lambda>data.
       if show_progress then
         io_bind (io_lift (bz2_decompress L data)) (\<lambda>decompressed.
         io_bind (print_progress (int (length data)) (int (length data)) Unpacking) (\<lambda>_.
         io_bind (print_out Newline) (\<lambda>_.
         io_return decompressed)))
       else io_lift (bz2_decompress L data))"

section \<open>Writing and unpacking tar archives\<close>

text \<open>
  \<^verbatim>\<open>with tarfile.open(dst, "w:bz2") as tar: tar.add(src, arcname=...)\<close>. Opening creates
  or truncates \<open>dst\<close>; the members are then read from the file system as it is, and
  closing leaves the bz2-compressed tar stream in \<open>dst\<close>. The \<open>arcname\<close> of the source
  is \<^verbatim>\<open>src.name if src.is_file() else src.name\<close>. A source that is missing when it is
  added raises after the (empty) archive has been closed.
\<close>

definition tar_bz2_write :: "('c, 'd) ext \<Rightarrow> path \<Rightarrow> path \<Rightarrow> unit io" where
  "tar_bz2_write L src dst =
     io_bind (io_write_bytes dst []) (\<lambda>_ w.
       let arcname = (if is_file (fs w) src then path_name src else path_name src) in
       case lookup (fs w) src of
         None \<Rightarrow>
           io_bind (io_write_bytes dst (bz2_compress L (tar_write L [])))
             (\<lambda>_. io_lift (Raised FileNotFoundError)) w
       | Some n \<Rightarrow>
           io_write_bytes dst (bz2_compress L (tar_write L (tar_add dst src [arcname] n))) w)"

text \<open>
  \<^verbatim>\<open>tar.extract(member, path=dest_dir)\<close>: the directories above the target are created
  when they do not exist; a directory member is created unless it is there already, a
  file member is written. Member names are relative paths without \<^verbatim>\<open>..\<close>; the
  extraction filter of the tar library, which rejects other names, is not modelled.
\<close>

definition extract_member :: "path \<Rightarrow> path \<times> member \<Rightarrow> unit io" where
  "extract_member dest_dir mem =
     (case mem of (name, content) \<Rightarrow>
        io_bind
          (\<lambda>w. if exists (fs w) (dest_dir @ butlast name) then io_return () w
                else io_mkdir (dest_dir @ butlast name) w)
          (\<lambda>_. case content of
                  TDir \<Rightarrow> io_mkdir (dest_dir @ name)
                | TFile b \<Rightarrow> io_write_bytes (dest_dir @ name) b))"

text \<open>\<^verbatim>\<open>tar.extractall(path=dest_dir)\<close>.\<close>

fun extractall :: "path \<Rightarrow> (path \<times> member) list \<Rightarrow> unit io" where
  "extractall dest_dir [] = io_return ()"
| "extractall dest_dir (mem # rest) =
     io_bind (extract_member dest_dir mem) (\<lambda>_. extractall dest_dir rest)"

text \<open>
  \<^verbatim>\<open>for i, member in enumerate(members): tar.extract(member, path=dest_dir);
  print_progress(...)\<close>, from index \<open>i\<close> on; \<open>report i\<close> is the call of
  \<^verbatim>\<open>print_progress\<close> in the body.
\<close>

fun extract_loop :: "path \<Rightarrow> (nat \<Rightarrow> unit io) \<Rightarrow> nat \<Rightarrow> (path \<times> member) list \<Rightarrow> unit io" where
  "extract_loop dest_dir report i [] = io_return ()"
| "extract_loop dest_dir report i (mem # rest) =
     io_bind (extract_member dest_dir mem) (\<lambda>_.
     io_bind (report i) (\<lambda>_.
     extract_loop dest_dir report (Suc i) rest))"

section \<open>The two operations\<close>

text \<open>
  Both operations return \<^verbatim>\<open>Optional[float]\<close>: the elapsed time of a benchmarked run
  that succeeded (\<open>Elapsed\<close>; the clock is not modelled), and \<^verbatim>\<open>None\<close> otherwise
  (\<open>NoResult\<close>). \<open>try_except\<close> is \<^verbatim>\<open>try: ... except Exception as e:\<close> with a handler
  that prints the error and returns \<^verbatim>\<open>None\<close>; what the body did before it raised
  stays done.
\<close>

datatype retval = NoResult | Elapsed

definition try_except :: "retval io \<Rightarrow> (exn \<Rightarrow> error) \<Rightarrow> retval io" where
  "try_except body handler w =
     (case body w of
        (Raised e, w') \<Rightarrow> io_bind (print_err (handler e)) (\<lambda>_. io_return NoResult) w'
      | (Ok r, w') \<Rightarrow> (Ok r, w'))"

text \<open>
  The size of the source in the benchmark report: of the file, or the sum over the
  files below the directory (\<^verbatim>\<open>src.rglob('*')\<close>).
\<close>

definition source_size :: "path \<Rightarrow> nat io" where
  "source_size src w =
     (if is_file (fs w) src then io_st_size src w
      else
        (case lookup (fs w) src of
           None \<Rightarrow> io_return 0 w
         | Some n \<Rightarrow>
             io_return
               (sum_list (map (\<lambda>(dirpath, dirs, files). sum_list (map (\<lambda>(f, b). length b) files))
                              (os_walk src n))) w))"

text \<open>
  Lines 143--154 of \<^verbatim>\<open>archive\<close>: the members of the in-memory tar file, with the count
  of files and the bar when progress is shown.
\<close>

definition build_tar :: "path \<Rightarrow> bool \<Rightarrow> (path \<times> member) list io" where
  "build_tar src progress w =
     (if progress then
        (let total_files = count_files (fs w) src in
         io_bind (print_out (Message (FilesToArchive total_files))) (\<lambda>_ w1.
           let buf = create_tar_archive (fs w1) src in
           io_bind (print_progress (int total_files) (int total_files) Archiving) (\<lambda>_.
           io_bind (print_out Newline) (\<lambda>_.
           io_return buf)) w1) w)
      else io_return (create_tar_archive (fs w) src) w)"

text \<open>Lines 170--179 of \<^verbatim>\<open>archive\<close>: reading the single source file.\<close>

definition read_single :: "path \<Rightarrow> bool \<Rightarrow> bytes io" where
  "read_single src progress =
     io_bind
       (if progress then
          io_bind (io_st_size src) (\<lambda>total_size.
          io_bind (print_out (Message (FileSize total_size))) (\<lambda>_.
          io_bind (print_progress 0 (int total_size) Archiving) (\<lambda>_.
          io_return total_size)))
        else io_return 0)
       (\<lambda>total_size.
          io_bind (io_read_bytes src) (\<lambda>data.
          io_bind
            (io_when progress
               (io_bind (print_progress (int total_size) (int total_size) Archiving) (\<lambda>_.
                print_out Newline)))
            (\<lambda>_. io_return data)))"

text \<open>Lines 142--184 of \<^verbatim>\<open>archive\<close>: building, compressing and writing.\<close>

definition archive_build ::
  "('c, 'd) ext \<Rightarrow> path \<Rightarrow> path \<Rightarrow> bool \<Rightarrow> archive_type \<Rightarrow> compression \<Rightarrow> unit io" where
  "archive_build L src dst progress archive_type compression =
     (if archive_type = Tar then
        io_bind (build_tar src progress) (\<lambda>buf.
          let data = tar_write L buf in
          if compression = Zst then compress_with_zstd L data dst progress
          else if progress then
            io_bind (print_progress 0 1 Compressing) (\<lambda>_.
            io_bind (tar_bz2_write L src dst) (\<lambda>_.
            io_bind (print_progress 1 1 Compressing) (\<lambda>_.
            print_out Newline)))
          else tar_bz2_write L src dst)
      else
        io_bind (read_single src progress) (\<lambda>data.
          if compression = Zst then compress_with_zstd L data dst progress
          else compress_with_bz2 L data dst progress))"

text \<open>Lines 186--203 of \<^verbatim>\<open>archive\<close>: the report.\<close>

definition archive_report :: "path \<Rightarrow> path \<Rightarrow> bool \<Rightarrow> retval io" where
  "archive_report src dst benchmark w =
     (if exists (fs w) dst then
        io_bind (io_st_size dst) (\<lambda>size_b.
          if benchmark then
            io_bind (source_size src) (\<lambda>src_size.
            io_bind (print_out (Message (ArchiveBenchmark src_size size_b))) (\<lambda>_.
            io_return Elapsed))
          else
            io_bind (print_out (Message (ArchiveCreated dst size_b))) (\<lambda>_.
            io_return NoResult)) w
      else io_return NoResult w)"

definition archive ::
  "('c, 'd) ext \<Rightarrow> path \<Rightarrow> path \<Rightarrow> bool \<Rightarrow> bool \<Rightarrow> retval io" where
  "archive L src dst progress benchmark w =
     (if \<not> exists (fs w) src then
        io_bind (print_err (SourceNotFound src)) (\<lambda>_. io_return NoResult) w
      else
        (case archive_format dst of
           Inl e \<Rightarrow> io_bind (print_err e) (\<lambda>_. io_return NoResult) w
         | Inr (archive_type, compression) \<Rightarrow>
             if is_dir (fs w) src \<and> archive_type \<noteq> Tar then
               io_bind (print_err DirectoryRequiresTar) (\<lambda>_. io_return NoResult) w
             else
               try_except
                 (io_bind (archive_build L src dst progress archive_type compression) (\<lambda>_.
                  archive_report src dst benchmark))
                 ArchiveFailed w))"

text \<open>Lines 238--291 of \<^verbatim>\<open>extract\<close>: reading, decompressing and unpacking.\<close>

definition extract_unpack ::
  "('c, 'd) ext \<Rightarrow> path \<Rightarrow> path \<Rightarrow> bool \<Rightarrow> archive_type \<Rightarrow> compression \<Rightarrow> unit io" where
  "extract_unpack L archive_path dest_dir progress archive_type compression =
     (if archive_type = Tar then
        (if compression = Bz2 then
           io_bind (io_when progress (print_progress 0 1 Unpacking)) (\<lambda>_.
           io_bind (io_read_bytes archive_path) (\<lambda>raw.
           io_bind (io_lift (bz2_decompress L raw)) (\<lambda>stream.
           io_bind (io_lift (tar_read L stream)) (\<lambda>members.
             if progress then
               io_bind
                 (extract_loop dest_dir
                    (\<lambda>i. print_progress (int i + 1) (int (length members)) Unpacking) 0 members)
                 (\<lambda>_. print_out Newline)
             else extractall dest_dir members))))
         else
           io_bind (io_when progress (print_progress 0 1 UnpackingZstd)) (\<lambda>_.
           io_bind (decompress_zstd L archive_path progress) (\<lambda>decompressed.
           io_bind (io_when progress (print_progress 1 2 UnpackingTar)) (\<lambda>_.
           io_bind (io_lift (tar_read L decompressed)) (\<lambda>members.
             if progress then
               io_bind
                 (extract_loop dest_dir
                    (\<lambda>i. print_progress (int i + 1 + int (length members))
                            (int (length members) * 2) UnpackingTar) 0 members)
                 (\<lambda>_. print_out Newline)
             else extractall dest_dir members)))))
      else
        io_bind (io_when progress (print_progress 0 1 Unpacking)) (\<lambda>_.
          let output_name = stem archive_path;
              output_path = dest_dir @ [output_name]
          in
          io_bind
            (if compression = Zst then decompress_zstd L archive_path progress
             else decompress_bz2 L archive_path progress) (\<lambda>data.
          io_bind (io_write_bytes output_path data) (\<lambda>_.
          io_when progress
            (io_bind (print_progress 1 1 Unpacking) (\<lambda>_. print_out Newline))))))"

text \<open>Lines 293--300 of \<^verbatim>\<open>extract\<close>: the report.\<close>

definition extract_report :: "path \<Rightarrow> bool \<Rightarrow> retval io" where
  "extract_report dest_dir benchmark =
     (if benchmark then
        io_bind (print_out (Message ExtractBenchmark)) (\<lambda>_. io_return Elapsed)
      else
        io_bind (print_out (Message (ExtractedTo dest_dir))) (\<lambda>_. io_return NoResult))"

text \<open>
  \<^verbatim>\<open>extract(archive_path, dest_dir, progress, benchmark)\<close>, here \<open>extract_archive\<close>.
  The destination directory is created on line 235, before the \<^verbatim>\<open>try\<close> of line
  237.
\<close>

definition extract_archive ::
  "('c, 'd) ext \<Rightarrow> path \<Rightarrow> path \<Rightarrow> bool \<Rightarrow> bool \<Rightarrow> retval io" where
  "extract_archive L archive_path dest_dir progress benchmark w =
     (if \<not> exists (fs w) archive_path then
        io_bind (print_err (SourceNotFound archive_path)) (\<lambda>_. io_return NoResult) w
      else
        (case extract_format archive_path of
           Inl e \<Rightarrow> io_bind (print_err e) (\<lambda>_. io_return NoResult) w
         | Inr (archive_type, compression) \<Rightarrow>
             io_bind (io_mkdir dest_dir) (\<lambda>_.
               try_except
                 (io_bind
                    (extract_unpack L archive_path dest_dir progress archive_type compression)
                    (\<lambda>_. extract_report dest_dir benchmark))
                 ExtractFailed) w))"

section \<open>Notions used in the statements\<close>

text \<open>
  What one call of \<^verbatim>\<open>print_progress\<close> prints: nothing or one bar. \<open>emit\<close> appends to
  the standard output.
\<close>

definition bar :: "int \<Rightarrow> int \<Rightarrow> label \<Rightarrow> out_event list" where
  "bar cur tot pfx =
     stdout (snd (print_progress cur tot pfx \<lparr>fs = Dir [], stdout = [], stderr = []\<rparr>))"

definition emit :: "out_event list \<Rightarrow> world \<Rightarrow> world" where
  "emit evs w = w\<lparr>stdout := stdout w @ evs\<rparr>"

text \<open>The bars of a chunk loop over the given offsets, for data of length \<open>n\<close>.\<close>

definition chunk_bars :: "nat \<Rightarrow> label \<Rightarrow> nat list \<Rightarrow> out_event list" where
  "chunk_bars n pfx offsets =
     concat (map (\<lambda>i. bar (int (min (i + 8192) n)) (int n) pfx) offsets)"

text \<open>The windows \<^verbatim>\<open>data[i:i + 8192]\<close> at the given offsets.\<close>

definition windows :: "bytes \<Rightarrow> nat list \<Rightarrow> bytes list" where
  "windows data offsets = map (\<lambda>i. take 8192 (drop i data)) offsets"

text \<open>
  Feeding a list of chunks to a compressor, one call each. The zstd frame of a byte
  string is what the non-chunked path computes: one call of \<^verbatim>\<open>compress\<close> on a fresh
  compressor, then \<^verbatim>\<open>flush\<close>.
\<close>

fun zstd_feed :: "('c, 'd) ext \<Rightarrow> 'c \<Rightarrow> bytes list \<Rightarrow> bytes \<times> 'c" where
  "zstd_feed L c [] = ([], c)"
| "zstd_feed L c (chunk # chunks) =
     (case zstd_compress L c chunk of
        (out, c') \<Rightarrow> (case zstd_feed L c' chunks of (outs, c'') \<Rightarrow> (out @ outs, c'')))"

definition zstd_frame :: "('c, 'd) ext \<Rightarrow> bytes \<Rightarrow> bytes" where
  "zstd_frame L data =
     fst (zstd_compress L (zstd_compressor L) data)
       @ zstd_flush L (snd (zstd_compress L (zstd_compressor L) data))"

text \<open>
  The streaming contract of the compressor, for calls that carry data: bytes given in two
  calls, neither of them empty, produce the output and the state that the same bytes
  produce in one call. Nothing is asked of a call without bytes: a compressor may tell
  such a call from no call at all.
\<close>

definition zstd_streaming :: "('c, 'd) ext \<Rightarrow> bool" where
  "zstd_streaming L =
     (\<forall>c a b. a \<noteq> [] \<and> b \<noteq> [] \<longrightarrow>
        zstd_compress L c (a @ b) =
          (fst (zstd_compress L c a) @ fst (zstd_compress L (snd (zstd_compress L c a)) b),
           snd (zstd_compress L (snd (zstd_compress L c a)) b)))"

definition mirrors :: "node \<Rightarrow> path \<Rightarrow> node \<Rightarrow> bool" where
  "mirrors t dest S =
     (is_dir t dest \<and>
      (\<forall>r b. lookup t (dest @ r) = Some (File b) \<longrightarrow> lookup S r = Some (File b)) \<and>
      (\<forall>r. is_dir t (dest @ r) \<longrightarrow> is_dir S r))"

definition file_members :: "node \<Rightarrow> (path \<times> member) list \<Rightarrow> bool" where
  "file_members S ms = list_all (\<lambda>(p, m). case m of TDir \<Rightarrow> False | TFile b \<Rightarrow> lookup S p = Some (File b)) ms"

fun wf_node :: "node \<Rightarrow> bool" where
  "wf_node (File b) = True"
| "wf_node (Dir es) = (distinct (map fst es) \<and> (\<forall>(c, m) \<in> set es. wf_node m))"

definition source_view :: "node \<Rightarrow> path \<Rightarrow> node" where
  "source_view n src = (case n of File b \<Rightarrow> Dir [(path_name src, File b)] | Dir es \<Rightarrow> Dir es)"

fun zstd_unfeed :: "('c, 'd) ext \<Rightarrow> 'd \<Rightarrow> bytes list \<Rightarrow> (bytes \<times> 'd) result" where
  "zstd_unfeed L d [] = Ok ([], d)"
| "zstd_unfeed L d (chunk # chunks) =
     (case zstd_decompress L d chunk of
        Raised e \<Rightarrow> Raised e
      | Ok (out, d') \<Rightarrow>
          (case zstd_unfeed L d' chunks of
             Raised e \<Rightarrow> Raised e
           | Ok (outs, d'') \<Rightarrow> Ok (out @ outs, d'')))"

definition writable :: "node \<Rightarrow> path \<Rightarrow> bool" where
  "writable tree p = (p \<noteq> [] \<and> is_dir tree (butlast p) \<and> \<not> is_dir tree p)"

definition unpack_bars :: "nat \<Rightarrow> bool \<Rightarrow> out_event list" where
  "unpack_bars n show_progress =
     (if show_progress
      then chunk_bars n Unpacking (py_range n 8192) @ bar (int n) (int n) Unpacking @ [Newline]
      else [])"

definition zstd_written :: "('c, 'd) ext \<Rightarrow> bytes \<Rightarrow> bool \<Rightarrow> bytes" where
  "zstd_written L data show_progress =
     (if show_progress
      then fst (zstd_feed L (zstd_compressor L) (windows data (py_range (length data) 8192)))
             @ zstd_flush L
                 (snd (zstd_feed L (zstd_compressor L) (windows data (py_range (length data) 8192))))
      else zstd_frame L data)"

definition written :: "('c, 'd) ext \<Rightarrow> compression \<Rightarrow> bytes \<Rightarrow> bool \<Rightarrow> bytes" where
  "written L c data show_progress =
     (case c of Zst \<Rightarrow> zstd_written L data show_progress | Bz2 \<Rightarrow> bz2_compress L data)"

definition pack_bars :: "compression \<Rightarrow> nat \<Rightarrow> bool \<Rightarrow> out_event list" where
  "pack_bars c n show_progress =
     (if show_progress
      then (case c of Zst \<Rightarrow> chunk_bars n Compressing (py_range n 8192) | Bz2 \<Rightarrow> [])
             @ bar (int n) (int n) Compressing @ [Newline]
      else [])"

definition tar_bars :: "nat \<Rightarrow> bool \<Rightarrow> out_event list" where
  "tar_bars k progress =
     (if progress
      then Message (FilesToArchive k) # bar (int k) (int k) Archiving @ [Newline]
      else [])"

definition single_bars :: "nat \<Rightarrow> bool \<Rightarrow> out_event list" where
  "single_bars n progress =
     (if progress
      then Message (FileSize n) # bar 0 (int n) Archiving @ bar (int n) (int n) Archiving @ [Newline]
      else [])"

definition bz2_bars :: "bool \<Rightarrow> bool \<Rightarrow> out_event list" where
  "bz2_bars progress done =
     (if progress
      then bar 0 1 Compressing @ (if done then bar 1 1 Compressing @ [Newline] else [])
      else [])"

definition archive_payload :: "('c, 'd) ext \<Rightarrow> node \<Rightarrow> path \<Rightarrow> archive_type \<Rightarrow> bytes" where
  "archive_payload L tree src t =
     (case t of
        Tar \<Rightarrow> tar_write L (create_tar_archive tree src)
      | Single \<Rightarrow> (case lookup tree src of Some (File b) \<Rightarrow> b | _ \<Rightarrow> []))"

definition decode_bars :: "compression \<Rightarrow> nat \<Rightarrow> bool \<Rightarrow> out_event list" where
  "decode_bars c n show_progress =
     (case c of
        Zst \<Rightarrow> unpack_bars n show_progress
      | Bz2 \<Rightarrow> if show_progress then bar (int n) (int n) Unpacking @ [Newline] else [])"

definition loop_bars :: "(nat \<Rightarrow> out_event list) \<Rightarrow> nat \<Rightarrow> nat \<Rightarrow> out_event list" where
  "loop_bars rb i n = concat (map rb [i..<i + n])"

definition fresh :: "node \<Rightarrow> path \<Rightarrow> bool" where
  "fresh tree dest = (\<not> exists tree dest \<and> list_all (\<lambda>q. \<not> is_file tree q) (prefixes dest))"

text \<open>
  The progress values of an output: for every bar, in the order printed, its label and
  the arguments \<^verbatim>\<open>cur\<close> and \<^verbatim>\<open>total\<close> of the call of \<^verbatim>\<open>print_progress\<close> that printed it.
  \<open>reported m w\<close> is what a run of \<open>m\<close> from \<open>w\<close> adds.
\<close>

fun bar_values :: "out_event \<Rightarrow> (label \<times> int \<times> int) list" where
  "bar_values (Bar pfx filled blank progress cur tot) = [(pfx, cur, tot)]"
| "bar_values Newline = []"
| "bar_values (Message m) = []"

definition progress_values :: "out_event list \<Rightarrow> (label \<times> int \<times> int) list" where
  "progress_values evs = concat (map bar_values evs)"

definition reported :: "'a io \<Rightarrow> world \<Rightarrow> (label \<times> int \<times> int) list" where
  "reported m w = progress_values (drop (length (stdout w)) (stdout (snd (m w))))"

text \<open>
  Two reports belong to the same bar when they carry the same label and the same total.
  \<open>same_bar_monotone\<close>: of two reports of the same bar, the later one has the larger or
  equal count. \<open>ends_at_total\<close>: the count of the last report is its total.
\<close>

definition same_bar_monotone :: "(label \<times> int \<times> int) list \<Rightarrow> bool" where
  "same_bar_monotone vs =
     sorted_wrt (\<lambda>(l, c, t) (l', c', t'). l = l' \<and> t = t' \<longrightarrow> c \<le> c') vs"

definition ends_at_total :: "(label \<times> int \<times> int) list \<Rightarrow> bool" where
  "ends_at_total vs = (vs = [] \<or> (case last vs of (l, c, t) \<Rightarrow> c = t))"

text \<open>
  A run completes successfully when it returns and has printed no error message.
\<close>

definition completes :: "'a io \<Rightarrow> world \<Rightarrow> bool" where
  "completes m w =
     (case fst (m w) of Raised e \<Rightarrow> False | Ok x \<Rightarrow> stderr (snd (m w)) = stderr w)"

text \<open>What a successful run of \<^verbatim>\<open>archive\<close> prints before its report.\<close>

definition archive_bars ::
  "('c, 'd) ext \<Rightarrow> node \<Rightarrow> path \<Rightarrow> bool \<Rightarrow> archive_type \<Rightarrow> compression \<Rightarrow> out_event list" where
  "archive_bars L tree src progress t c =
     (case t of
        Single \<Rightarrow>
          single_bars (length (archive_payload L tree src Single)) progress
            @ pack_bars c (length (archive_payload L tree src Single)) progress
      | Tar \<Rightarrow>
          tar_bars (count_files tree src) progress
            @ (case c of
                 Zst \<Rightarrow> pack_bars Zst (length (archive_payload L tree src Tar)) progress
               | Bz2 \<Rightarrow> bz2_bars progress True))"

text \<open>
  What \<^verbatim>\<open>decompress_zstd\<close> returns for the bytes \<open>raw\<close> of an archive, and the members
  that \<^verbatim>\<open>extract\<close> finds in a tar archive with these bytes.
\<close>

definition zstd_read :: "('c, 'd) ext \<Rightarrow> bool \<Rightarrow> bytes \<Rightarrow> bytes result" where
  "zstd_read L show_progress raw =
     (case (if show_progress
            then zstd_unfeed L (zstd_decompressor L) (windows raw (py_range (length raw) 8192))
            else zstd_decompress L (zstd_decompressor L) raw) of
        Raised e \<Rightarrow> Raised e
      | Ok (out, d) \<Rightarrow> Ok out)"

text \<open>
  \<open>decoded\<close> is what \<^verbatim>\<open>extract\<close> obtains from the bytes of an archive: the result of
  \<^verbatim>\<open>decompress_zstd\<close> or of \<^verbatim>\<open>bz2.decompress\<close>. \<open>reads_back\<close> says of a byte string
  \<open>x\<close> that the bytes which \<^verbatim>\<open>archive\<close> writes for it (with or without progress), decoded
  as \<^verbatim>\<open>extract\<close> decodes them (with or without progress), are \<open>x\<close> again.
\<close>

definition decoded :: "('c, 'd) ext \<Rightarrow> compression \<Rightarrow> bool \<Rightarrow> bytes \<Rightarrow> bytes result" where
  "decoded L c show_progress raw =
     (case c of Zst \<Rightarrow> zstd_read L show_progress raw | Bz2 \<Rightarrow> bz2_decompress L raw)"

definition reads_back :: "('c, 'd) ext \<Rightarrow> compression \<Rightarrow> bool \<Rightarrow> bool \<Rightarrow> bytes \<Rightarrow> bool" where
  "reads_back L c archive_progress extract_progress x =
     (decoded L c extract_progress (written L c x archive_progress) = Ok x)"

definition archive_members ::
  "('c, 'd) ext \<Rightarrow> bool \<Rightarrow> compression \<Rightarrow> bytes \<Rightarrow> (path \<times> member) list result" where
  "archive_members L show_progress c raw =
     (case (case c of Bz2 \<Rightarrow> bz2_decompress L raw | Zst \<Rightarrow> zstd_read L show_progress raw) of
        Raised e \<Rightarrow> Raised e
      | Ok stream \<Rightarrow> tar_read L stream)"

definition member_count :: "('c, 'd) ext \<Rightarrow> bool \<Rightarrow> compression \<Rightarrow> bytes \<Rightarrow> nat" where
  "member_count L show_progress c raw =
     (case archive_members L show_progress c raw of Raised e \<Rightarrow> 0 | Ok ms \<Rightarrow> length ms)"

text \<open>
  \<open>tar_has_members\<close>: when the name of the archive selects a tar format, the archive is
  a file that holds at least one member.
\<close>

definition tar_has_members :: "('c, 'd) ext \<Rightarrow> bool \<Rightarrow> node \<Rightarrow> path \<Rightarrow> bool" where
  "tar_has_members L progress tree archive_path =
     (case extract_format archive_path of
        Inl e \<Rightarrow> True
      | Inr (t, c) \<Rightarrow>
          (case t of
             Single \<Rightarrow> True
           | Tar \<Rightarrow>
               (case lookup tree archive_path of
                  Some (File raw) \<Rightarrow> 0 < member_count L progress c raw
                | _ \<Rightarrow> False)))"

text \<open>What a successful run of \<^verbatim>\<open>extract\<close> prints before its report.\<close>

definition extract_bars ::
  "('c, 'd) ext \<Rightarrow> bool \<Rightarrow> archive_type \<Rightarrow> compression \<Rightarrow> bytes \<Rightarrow> out_event list" where
  "extract_bars L progress t c raw =
     (let n = member_count L progress c raw in
      case t of
        Single \<Rightarrow>
          (if progress then bar 0 1 Unpacking else [])
            @ decode_bars c (length raw) progress
            @ (if progress then bar 1 1 Unpacking @ [Newline] else [])
      | Tar \<Rightarrow>
          (case c of
             Bz2 \<Rightarrow>
               if progress
               then bar 0 1 Unpacking
                      @ loop_bars (\<lambda>i. bar (int i + 1) (int n) Unpacking) 0 n @ [Newline]
               else []
           | Zst \<Rightarrow>
               (if progress then bar 0 1 UnpackingZstd else [])
                 @ decode_bars Zst (length raw) progress
                 @ (if progress
                    then bar 1 2 UnpackingTar
                           @ loop_bars (\<lambda>i. bar (int i + 1 + int n) (int n * 2) UnpackingTar) 0 n
                           @ [Newline]
                    else [])))"

section \<open>A small instance of the libraries\<close>

text \<open>
  The theorems below hold for every instance of the libraries that satisfies the
  properties they name. To show that these properties can be met, and to run the model
  on concrete inputs, here is a small instance: codecs that store their input (the zstd
  one unchanged, counting the bytes it has seen; the bz2 one reversed), and a tar format
  that writes every length in unary before the data it measures.
\<close>

definition put_nat :: "nat \<Rightarrow> bytes" where
  "put_nat n = replicate n 1 @ [0]"

definition put_bytes :: "bytes \<Rightarrow> bytes" where
  "put_bytes bs = put_nat (length bs) @ bs"

definition put_string :: "string \<Rightarrow> bytes" where
  "put_string s = put_bytes (map (\<lambda>c. of_nat (of_char c)) s)"

definition put_path :: "path \<Rightarrow> bytes" where
  "put_path p = put_nat (length p) @ concat (map put_string p)"

definition put_member :: "path \<times> member \<Rightarrow> bytes" where
  "put_member mem =
     (case mem of (name, content) \<Rightarrow>
        put_path name @ (case content of TDir \<Rightarrow> [0] | TFile b \<Rightarrow> 1 # put_bytes b))"

definition toy_tar_write :: "(path \<times> member) list \<Rightarrow> bytes" where
  "toy_tar_write ms = put_nat (length ms) @ concat (map put_member ms)"

definition get_nat :: "bytes \<Rightarrow> (nat \<times> bytes) option" where
  "get_nat bs =
     (let n = length (takeWhile (\<lambda>b. b = 1) bs) in
      case drop n bs of
        [] \<Rightarrow> None
      | b # rest \<Rightarrow> if b = 0 then Some (n, rest) else None)"

definition get_bytes :: "bytes \<Rightarrow> (bytes \<times> bytes) option" where
  "get_bytes bs =
     (case get_nat bs of
        None \<Rightarrow> None
      | Some (n, rest) \<Rightarrow> if n \<le> length rest then Some (take n rest, drop n rest) else None)"

definition get_string :: "bytes \<Rightarrow> (string \<times> bytes) option" where
  "get_string bs =
     (case get_bytes bs of
        None \<Rightarrow> None
      | Some (b, rest) \<Rightarrow> Some (map (\<lambda>x. char_of (unat x)) b, rest))"

fun get_many :: "(bytes \<Rightarrow> ('a \<times> bytes) option) \<Rightarrow> nat \<Rightarrow> bytes \<Rightarrow> ('a list \<times> bytes) option" where
  "get_many g 0 bs = Some ([], bs)"
| "get_many g (Suc k) bs =
     (case g bs of
        None \<Rightarrow> None
      | Some (x, rest) \<Rightarrow>
          (case get_many g k rest of
             None \<Rightarrow> None
           | Some (xs, rest') \<Rightarrow> Some (x # xs, rest')))"

definition get_path :: "bytes \<Rightarrow> (path \<times> bytes) option" where
  "get_path bs =
     (case get_nat bs of None \<Rightarrow> None | Some (k, rest) \<Rightarrow> get_many get_string k rest)"

definition get_member :: "bytes \<Rightarrow> ((path \<times> member) \<times> bytes) option" where
  "get_member bs =
     (case get_path bs of
        None \<Rightarrow> None
      | Some (name, rest) \<Rightarrow>
          (case rest of
             [] \<Rightarrow> None
           | tag # rest' \<Rightarrow>
               if tag = 0 then Some ((name, TDir), rest')
               else
                 (case get_bytes rest' of
                    None \<Rightarrow> None
                  | Some (b, rest'') \<Rightarrow> Some ((name, TFile b), rest''))))"

definition toy_tar_read :: "bytes \<Rightarrow> (path \<times> member) list result" where
  "toy_tar_read bs =
     (case get_nat bs of
        None \<Rightarrow> Raised ReadError
      | Some (k, rest) \<Rightarrow>
          (case get_many get_member k rest of
             Some (ms, []) \<Rightarrow> Ok ms
           | _ \<Rightarrow> Raised ReadError))"

definition toy_ext :: "(nat, unit) ext" where
  "toy_ext =
     \<lparr>zstd_compressor = 0,
      zstd_compress = (\<lambda>c chunk. (chunk, c + length chunk)),
      zstd_flush = (\<lambda>c. []),
      zstd_decompressor = (),
      zstd_decompress = (\<lambda>d chunk. Ok (chunk, d)),
      bz2_compress = rev,
      bz2_decompress = (\<lambda>bs. Ok (rev bs)),
      tar_write = toy_tar_write,
      tar_read = toy_tar_read\<rparr>"

text \<open>
  A second instance, whose zstd compressor treats the frame header as libzstd does. It
  keeps the bytes it is given and writes them at \<^verbatim>\<open>flush\<close> as one stored block, behind a
  frame header that depends on whether \<^verbatim>\<open>compress\<close> has been called: the header of a
  frame of known content size (no bytes) when \<^verbatim>\<open>flush\<close> is the first call on the
  compressor, the header with a window descriptor otherwise. Its decoder skips the nine
  bytes before the stored data and passes the rest on. The bz2 codec and the tar format
  are those of the first instance.
\<close>

definition block_header :: "nat \<Rightarrow> bytes" where
  "block_header n =
     [of_nat (8 * n + 1), of_nat ((8 * n + 1) div 256), of_nat ((8 * n + 1) div 65536)]"

definition stored_ext :: "(bool \<times> bytes, nat) ext" where
  "stored_ext =
     \<lparr>zstd_compressor = (False, []),
      zstd_compress = (\<lambda>(called, kept) chunk. ([], (True, kept @ chunk))),
      zstd_flush = (\<lambda>(called, kept).
        [40, 181, 47, 253] @ (if called then [0, 88] else [32, 0])
          @ block_header (length kept) @ kept),
      zstd_decompressor = 0,
      zstd_decompress = (\<lambda>seen chunk. Ok (drop (9 - seen) chunk, seen + length chunk)),
      bz2_compress = rev,
      bz2_decompress = (\<lambda>bs. Ok (rev bs)),
      tar_write = toy_tar_write,
      tar_read = toy_tar_read\<rparr>"

definition tree_world :: world where
  "tree_world =
     \<lparr>fs = Dir [(''d'', Dir [(''a'', Dir [(''b.txt'', File [1, 2]),
                                         (''c'', Dir [(''d.txt'', File [3])])])])],
      stdout = [], stderr = []\<rparr>"

definition file_world :: world where
  "file_world = \<lparr>fs = Dir [(''a.txt'', File [1, 2, 3])], stdout = [], stderr = []\<rparr>"

text \<open>
  A world whose only file is a \<^verbatim>\<open>.tar.bz2\<close> archive without members: \<open>[0]\<close> is what
  the small instance writes for the empty list of members.
\<close>

definition empty_tar_world :: world where
  "empty_tar_world = \<lparr>fs = Dir [(''e.tar.bz2'', File [0])], stdout = [], stderr = []\<rparr>"

section \<open>Properties of the small instance\<close>

lemma get_nat_put: "get_nat (put_nat n @ bs) = Some (n, bs)"
proof -
  have "takeWhile (\<lambda>b. b = 1) (replicate n (1::byte) @ 0 # bs) = replicate n 1"
    by (induction n) auto
  then show ?thesis
    by (simp add: get_nat_def put_nat_def)
qed

lemma get_bytes_put: "get_bytes (put_bytes b @ bs) = Some (b, bs)"
  by (simp add: get_bytes_def put_bytes_def get_nat_put)

lemma byte_char: "char_of (unat (of_nat (of_char c) :: byte)) = c"
  by (simp add: unat_of_nat)

lemma get_string_put: "get_string (put_string s @ bs) = Some (s, bs)"
  by (simp add: get_string_def put_string_def get_bytes_put byte_char comp_def)

lemma get_many_put:
  assumes "\<And>x bs. g (f x @ bs) = Some (x, bs)"
  shows "get_many g (length xs) (concat (map f xs) @ bs) = Some (xs, bs)"
  by (induction xs) (simp_all add: assms)

lemma get_path_put: "get_path (put_path p @ bs) = Some (p, bs)"
  by (simp add: get_path_def put_path_def get_nat_put get_many_put get_string_put)

lemma get_member_put: "get_member (put_member m @ bs) = Some (m, bs)"
  by (cases m) (auto simp: get_member_def put_member_def get_path_put get_bytes_put split: member.splits)

lemma toy_tar_roundtrip: "toy_tar_read (toy_tar_write ms) = Ok ms"
  using get_many_put [of get_member put_member ms "[]"]
  by (simp add: toy_tar_read_def toy_tar_write_def get_nat_put get_member_put)

section \<open>Suffix tests\<close>

lemma endswith_suffix: "endswith s suf \<longleftrightarrow> suffix suf s"
proof
  assume "endswith s suf"
  then have "s = take (length s - length suf) s @ suf"
    by (metis append_take_drop_id endswith_def)
  then show "suffix suf s"
    by (metis suffixI)
next
  assume "suffix suf s"
  then obtain zs where "s = zs @ suf"
    by (auto simp: suffix_def)
  then show "endswith s suf"
    by (simp add: endswith_def)
qed

text \<open>Printing an error and returning \<^verbatim>\<open>None\<close>.\<close>

lemma no_result: "io_bind (print_err e) (\<lambda>_. io_return NoResult) w = (Ok NoResult, w\<lparr>stderr := stderr w @ [e]\<rparr>)"
  by (simp add: io_bind_def print_err_def io_return_def)

section \<open>Format dispatch: the table of suffixes\<close>

text \<open>
  C3. For every file name the dispatcher returns (tar, zstd) when the name ends in
  \<^verbatim>\<open>.tar.zst\<close>, (tar, bz2) when it ends in \<^verbatim>\<open>.tar.bz2\<close>, otherwise (raw, zstd) when it
  ends in \<^verbatim>\<open>.zst\<close> and (raw, bz2) when it ends in \<^verbatim>\<open>.bz2\<close>, and the
  \<open>UnsupportedFormat\<close> error for every other name. \<^verbatim>\<open>archive\<close> applies it to the
  lower-cased name of the destination and \<^verbatim>\<open>extract\<close> to the lower-cased name of the
  archive; on the error each of them reports it, returns \<^verbatim>\<open>None\<close> and leaves the file
  system as it was.
\<close>

theorem dispatch_table:
  "(suffix ''.tar.zst'' name \<longrightarrow> detect_format name = Inr (Tar, Zst)) \<and>
   (suffix ''.tar.bz2'' name \<longrightarrow> detect_format name = Inr (Tar, Bz2)) \<and>
   (suffix ''.zst'' name \<and> \<not> suffix ''.tar.zst'' name \<longrightarrow> detect_format name = Inr (Single, Zst)) \<and>
   (suffix ''.bz2'' name \<and> \<not> suffix ''.tar.bz2'' name \<longrightarrow> detect_format name = Inr (Single, Bz2)) \<and>
   (\<not> suffix ''.zst'' name \<and> \<not> suffix ''.bz2'' name \<longrightarrow> detect_format name = Inl UnsupportedFormat) \<and>
   archive_format dst = detect_format (lower (path_name dst)) \<and>
   extract_format archive_path = detect_format (lower (path_name archive_path)) \<and>
   (exists (fs w) src \<and> archive_format dst = Inl UnsupportedFormat \<longrightarrow>
      archive L src dst progress benchmark w = (Ok NoResult, w\<lparr>stderr := stderr w @ [UnsupportedFormat]\<rparr>)) \<and>
   (exists (fs w) archive_path \<and> extract_format archive_path = Inl UnsupportedFormat \<longrightarrow>
      extract_archive L archive_path dest_dir progress benchmark w =
        (Ok NoResult, w\<lparr>stderr := stderr w @ [UnsupportedFormat]\<rparr>))"
proof -
  have a: "suffix ''.tar.zst'' name \<Longrightarrow> \<not> suffix ''.tar.bz2'' name"
    by (auto simp: suffix_def)
  have b: "suffix ''.tar.zst'' name \<Longrightarrow> suffix ''.zst'' name"
    "suffix ''.tar.bz2'' name \<Longrightarrow> suffix ''.bz2'' name"
    by (auto simp: suffix_def)
  have c: "suffix ''.zst'' name \<Longrightarrow> \<not> suffix ''.bz2'' name"
    by (auto simp: suffix_def)
  show ?thesis
    using a b c
    by (auto simp: detect_format_def endswith_suffix archive_format_def extract_format_def
        archive_def extract_archive_def no_result)
qed

theorem dispatch_table_witness:
  "suffix ''.tar.zst'' ''a.tar.zst'' \<and> detect_format ''a.tar.zst'' = Inr (Tar, Zst) \<and>
   suffix ''.tar.bz2'' ''a.tar.bz2'' \<and> detect_format ''a.tar.bz2'' = Inr (Tar, Bz2) \<and>
   suffix ''.zst'' ''a.zst'' \<and> \<not> suffix ''.tar.zst'' ''a.zst'' \<and>
   detect_format ''a.zst'' = Inr (Single, Zst) \<and>
   suffix ''.bz2'' ''a.bz2'' \<and> \<not> suffix ''.tar.bz2'' ''a.bz2'' \<and>
   detect_format ''a.bz2'' = Inr (Single, Bz2) \<and>
   \<not> suffix ''.zst'' ''data.xyz'' \<and> \<not> suffix ''.bz2'' ''data.xyz'' \<and>
   detect_format ''data.xyz'' = Inl UnsupportedFormat \<and>
   exists (Dir [(''data.xyz'', File [])]) [''data.xyz''] \<and>
   extract_format [''data.xyz''] = Inl UnsupportedFormat \<and>
   extract_archive toy_ext [''data.xyz''] [''out''] False False
       \<lparr>fs = Dir [(''data.xyz'', File [])], stdout = [], stderr = []\<rparr> =
     (Ok NoResult, \<lparr>fs = Dir [(''data.xyz'', File [])], stdout = [], stderr = [UnsupportedFormat]\<rparr>)"
proof -
  note t = dispatch_table
  have s1: "suffix ''.tar.zst'' ''a.tar.zst''" "suffix ''.tar.bz2'' ''a.tar.bz2''"
    by (simp_all add: suffix_to_prefix)
  have s2: "suffix ''.zst'' ''a.zst''" "\<not> suffix ''.tar.zst'' ''a.zst''"
    "suffix ''.bz2'' ''a.bz2''" "\<not> suffix ''.tar.bz2'' ''a.bz2''"
    by (simp_all add: suffix_to_prefix)
  have s3: "\<not> suffix ''.zst'' ''data.xyz''" "\<not> suffix ''.bz2'' ''data.xyz''"
    by (simp_all add: suffix_to_prefix)
  have e: "exists (Dir [(''data.xyz'', File [])]) [''data.xyz'']"
    by (simp add: exists_def)
  have l: "lower ''data.xyz'' = ''data.xyz''"
    by code_simp
  have f: "extract_format [''data.xyz''] = Inl UnsupportedFormat"
    using t [of "''data.xyz''", THEN conjunct2, THEN conjunct2, THEN conjunct2, THEN conjunct2,
        THEN conjunct1] s3
    by (simp add: extract_format_def path_name_def l)
  have x: "extract_archive toy_ext [''data.xyz''] [''out''] False False
       \<lparr>fs = Dir [(''data.xyz'', File [])], stdout = [], stderr = []\<rparr> =
     (Ok NoResult, \<lparr>fs = Dir [(''data.xyz'', File [])], stdout = [], stderr = [UnsupportedFormat]\<rparr>)"
    using t [where archive_path = "[''data.xyz'']"
        and w = "\<lparr>fs = Dir [(''data.xyz'', File [])], stdout = [], stderr = []\<rparr>"
        and L = toy_ext and dest_dir = "[''out'']" and progress = False and benchmark = False,
        THEN conjunct2, THEN conjunct2, THEN conjunct2, THEN conjunct2, THEN conjunct2,
        THEN conjunct2, THEN conjunct2, THEN conjunct2] e f
    by simp
  show ?thesis
    using s1 s2 s3 e f x
      t [of "''a.tar.zst''", THEN conjunct1]
      t [of "''a.tar.bz2''", THEN conjunct2, THEN conjunct1]
      t [of "''a.zst''", THEN conjunct2, THEN conjunct2, THEN conjunct1]
      t [of "''a.bz2''", THEN conjunct2, THEN conjunct2, THEN conjunct2, THEN conjunct1]
      t [of "''data.xyz''", THEN conjunct2, THEN conjunct2, THEN conjunct2, THEN conjunct2,
        THEN conjunct1]
    by simp
qed

text \<open>
  C9. The dispatch of \<^verbatim>\<open>archive\<close> is case-insensitive, as that of \<^verbatim>\<open>extract\<close> is: the
  name is lower-cased before the suffix tests, so two destinations whose names agree up
  to letter case select the same container and codec.
\<close>

theorem dispatch_ignores_case:
  "lower n = lower n' \<Longrightarrow>
   archive_format (d @ [n]) = archive_format (d' @ [n']) \<and>
   extract_format (d @ [n]) = extract_format (d' @ [n']) \<and>
   archive_format (d @ [n]) = detect_format (lower n)"
  by (simp add: archive_format_def extract_format_def path_name_def)

theorem dispatch_ignores_case_witness:
  "lower ''X.TAR.ZST'' = lower ''x.tar.zst'' \<and>
   archive_format [''out'', ''X.TAR.ZST''] = archive_format [''out'', ''x.tar.zst''] \<and>
   extract_format [''out'', ''X.TAR.ZST''] = extract_format [''out'', ''x.tar.zst''] \<and>
   archive_format [''out'', ''X.TAR.ZST''] = Inr (Tar, Zst)"
proof -
  have h: "lower ''X.TAR.ZST'' = lower ''x.tar.zst''"
    by code_simp
  have v: "detect_format (lower ''X.TAR.ZST'') = Inr (Tar, Zst)"
    by code_simp
  note r = dispatch_ignores_case [OF h, of "[''out'']" "[''out'']"]
  from r have r1: "archive_format ([''out''] @ [''X.TAR.ZST'']) = archive_format ([''out''] @ [''x.tar.zst''])"
    by (rule conjunct1)
  from r have r2: "extract_format ([''out''] @ [''X.TAR.ZST'']) = extract_format ([''out''] @ [''x.tar.zst''])"
    by (elim conjE)
  from r have r3: "archive_format ([''out''] @ [''X.TAR.ZST'']) = detect_format (lower ''X.TAR.ZST'')"
    by (elim conjE)
  have r4: "archive_format ([''out''] @ [''X.TAR.ZST'']) = Inr (Tar, Zst)"
    by (simp only: r3 v)
  show ?thesis
    using h r1 r2 r4 by (simp only: append_Cons append_Nil simp_thms)
qed

section \<open>Rounding to a double\<close>

lemma floor_log2_bounds:
  assumes "0 < x"
  shows "2 powi floor_log2 x \<le> x \<and> x < 2 powi (floor_log2 x + 1)"
proof -
  obtain a b where q: "quotient_of x = (a, b)"
    by (cases "quotient_of x")
  then have b: "0 < b" and x: "x = of_int a / of_int b"
    using quotient_of_denom_pos [OF q] quotient_of_div [OF q] by simp_all
  from assms x b have a: "0 < a"
    by (simp add: zero_less_divide_iff)
  let ?la = "bitlen a" and ?lb = "bitlen b"
  from bitlen_bounds [OF a] have a1: "2 ^ nat (?la - 1) \<le> a" and a2: "a < 2 ^ nat ?la"
    by simp_all
  from bitlen_bounds [OF b] have b1: "2 ^ nat (?lb - 1) \<le> b" and b2: "b < 2 ^ nat ?lb"
    by simp_all
  have la: "1 \<le> ?la" and lb: "1 \<le> ?lb"
    using a b by (simp_all add: bitlen_alt_def)
  have A1: "(2::rat) powi (?la - 1) \<le> of_int a"
  proof -
    have "(of_int (2 ^ nat (?la - 1)) :: rat) \<le> of_int a"
      using a1 by (simp only: of_int_le_iff)
    then show ?thesis using la by (simp add: power_int_def)
  qed
  have A2: "of_int a < (2::rat) powi ?la"
  proof -
    have "(of_int a :: rat) < of_int (2 ^ nat ?la)"
      using a2 by (simp only: of_int_less_iff)
    then show ?thesis using la by (simp add: power_int_def)
  qed
  have B1: "(2::rat) powi (?lb - 1) \<le> of_int b"
  proof -
    have "(of_int (2 ^ nat (?lb - 1)) :: rat) \<le> of_int b"
      using b1 by (simp only: of_int_le_iff)
    then show ?thesis using lb by (simp add: power_int_def)
  qed
  have B2: "of_int b < (2::rat) powi ?lb"
  proof -
    have "(of_int b :: rat) < of_int (2 ^ nat ?lb)"
      using b2 by (simp only: of_int_less_iff)
    then show ?thesis using lb by (simp add: power_int_def)
  qed
  let ?d = "?la - ?lb"
  have bp: "(0::rat) < of_int b" using b by simp
  have up: "x < 2 powi (?d + 1)"
  proof -
    have "of_int a < (2::rat) powi ?la" by (rule A2)
    also have "\<dots> = 2 powi (?d + 1) * 2 powi (?lb - 1)"
      by (simp add: power_int_add [symmetric])
    also have "\<dots> \<le> 2 powi (?d + 1) * of_int b"
      using B1 by (intro mult_left_mono) simp_all
    finally show ?thesis
      using bp by (simp add: x pos_divide_less_eq)
  qed
  have lo: "2 powi (?d - 1) < x"
  proof -
    have "(2::rat) powi (?d - 1) * of_int b < 2 powi (?d - 1) * 2 powi ?lb"
      using B2 by (intro mult_strict_left_mono) simp_all
    also have "\<dots> = 2 powi (?la - 1)"
      by (simp add: power_int_add [symmetric])
    also have "\<dots> \<le> of_int a" by (rule A1)
    finally show ?thesis
      using bp by (simp add: x pos_less_divide_eq)
  qed
  show ?thesis
    using up lo by (auto simp: floor_log2_def q Let_def)
qed

lemma round_half_even_ge: "of_int k \<le> m \<Longrightarrow> k \<le> round_half_even m"
proof -
  assume "of_int k \<le> m"
  then have "k \<le> \<lfloor>m\<rfloor>" by (simp add: le_floor_iff)
  then show ?thesis
    by (auto simp: round_half_even_def Let_def)
qed

lemma round_half_even_le: "m \<le> of_int k \<Longrightarrow> round_half_even m \<le> k"
proof -
  assume m: "m \<le> of_int k"
  show ?thesis
  proof (cases "m = of_int k")
    case True
    then show ?thesis by (simp add: round_half_even_def)
  next
    case False
    with m have "m < of_int k" by simp
    then have "\<lfloor>m\<rfloor> < k" by (simp add: floor_less_iff)
    then have "\<lfloor>m\<rfloor> + 1 \<le> k" by simp
    then show ?thesis
      by (auto simp: round_half_even_def Let_def)
  qed
qed

lemma double_round_le_multiple:
  assumes "x \<le> of_int K * 2 powi ulp_exponent x"
  shows "double_round x \<le> of_int K * 2 powi ulp_exponent x"
proof (cases "x = 0")
  case True
  with assms show ?thesis by (simp add: double_round_def)
next
  case False
  let ?u = "(2::rat) powi ulp_exponent x"
  have u: "0 < ?u" by simp
  from assms u have "x / ?u \<le> of_int K"
    by (simp add: pos_divide_le_eq)
  then have "round_half_even (x / ?u) \<le> K"
    by (rule round_half_even_le)
  then have "(of_int (round_half_even (x / ?u)) :: rat) \<le> of_int K"
    by (simp only: of_int_le_iff)
  with u have "of_int (round_half_even (x / ?u)) * ?u \<le> of_int K * ?u"
    by (intro mult_right_mono) simp_all
  with False show ?thesis
    by (simp only: double_round_def if_False)
qed

lemma double_round_ge_multiple:
  assumes "of_int K * 2 powi ulp_exponent x \<le> x"
  shows "of_int K * 2 powi ulp_exponent x \<le> double_round x"
proof (cases "x = 0")
  case True
  with assms show ?thesis by (simp add: double_round_def)
next
  case False
  let ?u = "(2::rat) powi ulp_exponent x"
  have u: "0 < ?u" by simp
  from assms u have "of_int K \<le> x / ?u"
    by (simp add: pos_le_divide_eq)
  then have "K \<le> round_half_even (x / ?u)"
    by (rule round_half_even_ge)
  then have "(of_int K :: rat) \<le> of_int (round_half_even (x / ?u))"
    by (simp only: of_int_le_iff)
  with u have "of_int K * ?u \<le> of_int (round_half_even (x / ?u)) * ?u"
    by (intro mult_right_mono) simp_all
  with False show ?thesis
    by (simp only: double_round_def if_False)
qed

lemma double_round_nonneg: "0 \<le> x \<Longrightarrow> 0 \<le> double_round x"
  using double_round_ge_multiple [of 0 x] by simp

lemma double_round_nonpos: "x \<le> 0 \<Longrightarrow> double_round x \<le> 0"
  using double_round_le_multiple [of x 0] by simp

lemma pow_multiple:
  assumes "q \<le> k"
  shows "(2::rat) powi k = of_int (2 ^ nat (k - q)) * 2 powi q"
proof -
  have "(2::rat) powi k = 2 powi (int (nat (k - q)) + q)"
    using assms by simp
  also have "\<dots> = 2 powi int (nat (k - q)) * 2 powi q"
    by (rule power_int_add) simp
  also have "(2::rat) powi int (nat (k - q)) = of_int (2 ^ nat (k - q))"
    by (simp only: power_int_of_nat of_int_power of_int_numeral)
  finally show ?thesis .
qed

lemma int_multiple:
  assumes "q \<le> 0"
  shows "(of_int c :: rat) = of_int (c * 2 ^ nat (- q)) * 2 powi q"
proof -
  have "(1::rat) = 2 powi 0" by simp
  also have "\<dots> = of_int (2 ^ nat (0 - q)) * 2 powi q"
    using assms by (rule pow_multiple)
  finally have "(1::rat) = of_int (2 ^ nat (- q)) * 2 powi q"
    by simp
  then have "(of_int c :: rat) = of_int c * (of_int (2 ^ nat (- q)) * 2 powi q)"
    by simp
  then show ?thesis
    by (simp only: of_int_mult mult.assoc)
qed

lemma floor_log2_less:
  assumes "0 < x" and "x < 2 powi k"
  shows "floor_log2 x < k"
proof (rule ccontr)
  assume "\<not> floor_log2 x < k"
  then have "(2::rat) powi k \<le> 2 powi floor_log2 x"
    by (intro power_int_increasing) simp_all
  with floor_log2_bounds [OF assms(1)] assms(2) show False by simp
qed

lemma floor_log2_le:
  assumes "0 < x" and "x \<le> 2 powi k"
  shows "floor_log2 x \<le> k"
proof (rule ccontr)
  assume "\<not> floor_log2 x \<le> k"
  then have "(2::rat) powi (k + 1) \<le> 2 powi floor_log2 x"
    by (intro power_int_increasing) simp_all
  moreover have "(2::rat) powi k < 2 powi (k + 1)"
    by (intro power_int_strict_increasing) simp_all
  ultimately show False
    using floor_log2_bounds [OF assms(1)] assms(2) by simp
qed


lemma double_round_le_pow:
  assumes "x \<le> 2 powi k" and "- 1074 \<le> k"
  shows "double_round x \<le> 2 powi k"
proof (cases "0 < x")
  case False
  then have "double_round x \<le> 0" by (simp add: double_round_nonpos)
  also have "(0::rat) \<le> 2 powi k" by simp
  finally show ?thesis .
next
  case True
  from True assms(1) have "floor_log2 x \<le> k" by (rule floor_log2_le)
  with assms(2) True have "ulp_exponent x \<le> k"
    by (simp add: ulp_exponent_def)
  from pow_multiple [OF this]
  have eq: "(2::rat) powi k = of_int (2 ^ nat (k - ulp_exponent x)) * 2 powi ulp_exponent x" .
  have "x \<le> of_int (2 ^ nat (k - ulp_exponent x)) * 2 powi ulp_exponent x"
    using assms(1) by (simp only: eq [symmetric])
  then have "double_round x \<le> of_int (2 ^ nat (k - ulp_exponent x)) * 2 powi ulp_exponent x"
    by (rule double_round_le_multiple)
  then show ?thesis
    by (simp only: eq [symmetric])
qed


lemma double_round_le_int:
  assumes "x \<le> of_int c" and "0 < c" and "of_int c < (2::rat) powi 53"
  shows "double_round x \<le> of_int c"
proof (cases "0 < x")
  case False
  then have "double_round x \<le> 0" by (simp add: double_round_nonpos)
  with assms(2) show ?thesis by simp
next
  case True
  from assms(1,3) have "x < 2 powi 53" by (rule le_less_trans)
  with True have "floor_log2 x < 53" by (rule floor_log2_less)
  with True have "ulp_exponent x \<le> 0"
    by (simp add: ulp_exponent_def)
  from int_multiple [OF this, of c]
  have eq: "(of_int c :: rat) = of_int (c * 2 ^ nat (- ulp_exponent x)) * 2 powi ulp_exponent x" .
  have "x \<le> of_int (c * 2 ^ nat (- ulp_exponent x)) * 2 powi ulp_exponent x"
    using assms(1) by (simp only: eq [symmetric])
  then have "double_round x \<le> of_int (c * 2 ^ nat (- ulp_exponent x)) * 2 powi ulp_exponent x"
    by (rule double_round_le_multiple)
  then show ?thesis
    by (simp only: eq [symmetric])
qed

lemma double_round_one: "double_round 1 = 1"
  by code_simp


lemma double_round_le_one: "x \<le> 1 \<Longrightarrow> double_round x \<le> 1"
  using double_round_le_pow [of x 0] by simp


lemma double_round_le_fifty: "x \<le> 50 \<Longrightarrow> double_round x \<le> 50"
  using double_round_le_int [of x 50] by simp

lemma double_round_le_big: "x \<le> 2 ^ 1023 \<Longrightarrow> double_round x \<le> 2 ^ 1023"
  using double_round_le_pow [of x 1023] by simp

lemma to_double_Finite:
  "- (2 ^ 1024) < double_round x \<Longrightarrow> double_round x < 2 ^ 1024 \<Longrightarrow>
   to_double x = Finite (double_round x)"
  by (simp add: to_double_def Let_def)


section \<open>The progress bar\<close>

lemma print_progress_skip: "tot \<le> 0 \<Longrightarrow> print_progress cur tot pfx w = (Ok (), w)"
  by (simp add: print_progress_def io_return_def)

lemma print_progress_cases:
  "0 < tot \<Longrightarrow>
   print_progress cur tot pfx w =
     (case py_truediv cur tot of
        Raised e \<Rightarrow> (Raised e, w)
      | Ok q \<Rightarrow>
          (case py_int (py_float_mul 50 (min q 1)) of
             Raised e \<Rightarrow> (Raised e, w)
           | Ok filled \<Rightarrow>
               (case py_str_repeat filled of
                  Raised e \<Rightarrow> (Raised e, w)
                | Ok full \<Rightarrow>
                    (case py_str_repeat (50 - filled) of
                       Raised e \<Rightarrow> (Raised e, w)
                     | Ok blank \<Rightarrow>
                         (Ok (), w\<lparr>stdout := stdout w @ [Bar pfx full blank (min q 1) cur tot]\<rparr>)))))"
  by (simp add: print_progress_def io_bind_def io_lift_def print_out_def Let_def
        split: result.splits)



lemma py_int_Raised: "py_int x = Raised e \<Longrightarrow> e = OverflowError"
  by (auto simp: py_int_def split: pyfloat.splits)



lemma py_str_repeat_Raised: "py_str_repeat n = Raised e \<Longrightarrow> e = OverflowError"
  by (auto simp: py_str_repeat_def split: if_splits)


lemma py_str_repeat_small: "0 \<le> n \<Longrightarrow> n \<le> 50 \<Longrightarrow> py_str_repeat n = Ok (nat n)"
  by (simp add: py_str_repeat_def)

lemma print_progress_returns:
  assumes tot: "0 < tot" and cur: "0 \<le> cur" and le: "cur \<le> tot * 2 ^ 1023"
  shows "\<exists>filled blank progress.
           \<forall>w. print_progress cur tot pfx w =
                  (Ok (), w\<lparr>stdout := stdout w @ [Bar pfx filled blank progress cur tot]\<rparr>)"
proof -
  let ?x = "of_int cur / of_int tot :: rat"
  let ?q = "double_round ?x"
  let ?p = "min ?q 1"
  let ?y = "double_round (50 * ?p)"
  have x0: "0 \<le> ?x"
    using tot cur by simp
  have "(of_int cur :: rat) \<le> of_int (tot * 2 ^ 1023)"
    using le by (simp only: of_int_le_iff)
  then have x1: "?x \<le> 2 ^ 1023"
    using tot by (simp add: pos_divide_le_eq mult.commute)
  have q0: "0 \<le> ?q"
    using x0 by (rule double_round_nonneg)
  have q1: "?q \<le> 2 ^ 1023"
    using x1 by (rule double_round_le_big)
  have "(2::rat) ^ 1023 < 2 ^ 1024"
    by (rule power_strict_increasing) simp_all
  with q1 have q2: "?q < 2 ^ 1024" by (rule le_less_trans)
  have neg: "- (2 ^ 1024) < (0::rat)" by simp
  from neg q0 have q3: "- (2 ^ 1024) < ?q" by (rule less_le_trans)
  have dv: "py_truediv cur tot = Ok ?q"
    using tot q2 q3 by (simp add: py_truediv_def to_double_Finite)
  have p0: "0 \<le> ?p" and p1: "?p \<le> 1"
    using q0 by simp_all
  have y0: "0 \<le> ?y"
    using p0 by (intro double_round_nonneg) simp
  have y1: "?y \<le> 50"
    using p1 by (intro double_round_le_fifty) simp
  have "(50::rat) < 2 ^ 1024"
  proof -
    have "(50::rat) < 2 ^ 6" by simp
    also have "(2::rat) ^ 6 < 2 ^ 1024"
      by (rule power_strict_increasing) simp_all
    finally show ?thesis .
  qed
  with y1 have y2: "?y < 2 ^ 1024" by (rule le_less_trans)
  from neg y0 have y3: "- (2 ^ 1024) < ?y" by (rule less_le_trans)
  have fl: "py_int (py_float_mul 50 ?p) = Ok \<lfloor>?y\<rfloor>"
    using y0 y2 y3 by (simp add: py_int_def py_float_mul_def to_double_Finite)
  have f0: "0 \<le> \<lfloor>?y\<rfloor>" and f1: "\<lfloor>?y\<rfloor> \<le> 50"
    using y0 y1 by (simp_all add: floor_le_iff)
  have r1: "py_str_repeat \<lfloor>?y\<rfloor> = Ok (nat \<lfloor>?y\<rfloor>)"
    using f0 f1 by (rule py_str_repeat_small)
  have "0 \<le> 50 - \<lfloor>?y\<rfloor>" and "50 - \<lfloor>?y\<rfloor> \<le> 50"
    using f0 f1 by linarith+
  then have r2: "py_str_repeat (50 - \<lfloor>?y\<rfloor>) = Ok (nat (50 - \<lfloor>?y\<rfloor>))"
    by (rule py_str_repeat_small)
  show ?thesis
    by (intro exI [of _ "nat \<lfloor>?y\<rfloor>"] exI [of _ "nat (50 - \<lfloor>?y\<rfloor>)"] exI [of _ ?p] allI)
       (simp only: print_progress_cases [OF tot] dv fl r1 r2 result.case)
qed






lemma round_half_even_up:
  assumes "of_int f + 1 / 2 < m" and "m < of_int f + 1"
  shows "round_half_even m = f + 1"
proof -
  from assms have "\<lfloor>m\<rfloor> = f"
    by (intro floor_unique) simp_all
  with assms show ?thesis
    by (simp add: round_half_even_def Let_def)
qed







section \<open>Validation errors\<close>

text \<open>
  C7. Archiving a directory to a destination whose name carries a raw suffix
  (\<^verbatim>\<open>.zst\<close> or \<^verbatim>\<open>.bz2\<close>, not after \<^verbatim>\<open>.tar\<close>) reports \<open>DirectoryRequiresTar\<close>, returns
  \<^verbatim>\<open>None\<close> and leaves the file system as it was: no file is created at the
  destination.
\<close>

theorem directory_requires_tar:
  assumes "is_dir (fs w) src"
    and "suffix ''.zst'' (lower (path_name dst)) \<or> suffix ''.bz2'' (lower (path_name dst))"
    and "\<not> suffix ''.tar.zst'' (lower (path_name dst))"
    and "\<not> suffix ''.tar.bz2'' (lower (path_name dst))"
  shows "archive L src dst progress benchmark w =
           (Ok NoResult, w\<lparr>stderr := stderr w @ [DirectoryRequiresTar]\<rparr>) \<and>
         fs (snd (archive L src dst progress benchmark w)) = fs w \<and>
         lookup (fs (snd (archive L src dst progress benchmark w))) dst = lookup (fs w) dst"
proof -
  have ex: "exists (fs w) src"
    using assms(1) by (auto simp: is_dir_def exists_def split: option.splits)
  have "\<exists>c. archive_format dst = Inr (Single, c)"
    using assms(2-4) by (auto simp: archive_format_def detect_format_def endswith_suffix Let_def)
  then obtain c where "archive_format dst = Inr (Single, c)" ..
  then have "archive L src dst progress benchmark w =
           (Ok NoResult, w\<lparr>stderr := stderr w @ [DirectoryRequiresTar]\<rparr>)"
    using ex assms(1) by (simp add: archive_def no_result)
  then show ?thesis by simp
qed

lemma lower_out_zst: "lower ''out.zst'' = ''out.zst''"
  by code_simp

theorem directory_requires_tar_witness:
  "is_dir (Dir [(''d'', Dir [(''f'', File [1])])]) [''d''] \<and>
   suffix ''.zst'' (lower (path_name [''out.zst''])) \<and>
   \<not> suffix ''.tar.zst'' (lower (path_name [''out.zst''])) \<and>
   \<not> suffix ''.tar.bz2'' (lower (path_name [''out.zst''])) \<and>
   archive toy_ext [''d''] [''out.zst''] True False
       \<lparr>fs = Dir [(''d'', Dir [(''f'', File [1])])], stdout = [], stderr = []\<rparr> =
     (Ok NoResult,
      \<lparr>fs = Dir [(''d'', Dir [(''f'', File [1])])], stdout = [], stderr = [DirectoryRequiresTar]\<rparr>) \<and>
   lookup (Dir [(''d'', Dir [(''f'', File [1])])]) [''out.zst''] = None"
proof -
  let ?w = "\<lparr>fs = Dir [(''d'', Dir [(''f'', File [1])])], stdout = [], stderr = []\<rparr>"
  have d: "is_dir (fs ?w) [''d'']"
    by (simp add: is_dir_def)
  have s: "suffix ''.zst'' (lower (path_name [''out.zst''])) \<or>
           suffix ''.bz2'' (lower (path_name [''out.zst'']))"
    "\<not> suffix ''.tar.zst'' (lower (path_name [''out.zst'']))"
    "\<not> suffix ''.tar.bz2'' (lower (path_name [''out.zst'']))"
    by (simp_all add: path_name_def lower_out_zst suffix_to_prefix)
  have s': "suffix ''.zst'' (lower (path_name [''out.zst'']))"
    by (simp add: path_name_def lower_out_zst suffix_to_prefix)
  show ?thesis
    using directory_requires_tar [OF d s, of toy_ext True False] d s s' by simp
qed

text \<open>
  C8. When the source path does not exist, \<^verbatim>\<open>archive\<close> and \<^verbatim>\<open>extract\<close> report
  \<open>SourceNotFound\<close>, return \<^verbatim>\<open>None\<close> and leave the file system as it was.
\<close>

theorem source_not_found:
  "\<not> exists (fs w) src \<Longrightarrow>
   archive L src dst progress benchmark w =
     (Ok NoResult, w\<lparr>stderr := stderr w @ [SourceNotFound src]\<rparr>) \<and>
   extract_archive L src dest_dir progress benchmark w =
     (Ok NoResult, w\<lparr>stderr := stderr w @ [SourceNotFound src]\<rparr>) \<and>
   fs (snd (archive L src dst progress benchmark w)) = fs w \<and>
   fs (snd (extract_archive L src dest_dir progress benchmark w)) = fs w"
  by (simp add: archive_def extract_archive_def no_result)

theorem source_not_found_witness:
  "\<not> exists (Dir []) [''gone.zst''] \<and>
   archive toy_ext [''gone.zst''] [''out.zst''] False False \<lparr>fs = Dir [], stdout = [], stderr = []\<rparr> =
     (Ok NoResult, \<lparr>fs = Dir [], stdout = [], stderr = [SourceNotFound [''gone.zst'']]\<rparr>) \<and>
   extract_archive toy_ext [''gone.zst''] [''out''] False False
       \<lparr>fs = Dir [], stdout = [], stderr = []\<rparr> =
     (Ok NoResult, \<lparr>fs = Dir [], stdout = [], stderr = [SourceNotFound [''gone.zst'']]\<rparr>)"
proof -
  have n: "\<not> exists (fs \<lparr>fs = Dir [], stdout = [], stderr = []\<rparr>) [''gone.zst'']"
    by (simp add: exists_def)
  show ?thesis
    using source_not_found [OF n, of toy_ext "[''out.zst'']" False False "[''out'']"] n by simp
qed

section \<open>Exceptions that reach the caller\<close>

lemma try_except_returns: "\<exists>r. fst (try_except body handler w) = Ok r"
  by (cases "body w") (auto simp: try_except_def no_result split: result.splits)

lemma fmt_a_zst: "extract_format [''a.zst''] = Inr (Single, Zst)"
  by code_simp

text \<open>
  C5. \<^verbatim>\<open>archive\<close> never raises: whatever its body raises is caught, reported and
  answered with \<^verbatim>\<open>None\<close>. \<^verbatim>\<open>extract\<close> does not keep that promise: the directory is
  created before the \<^verbatim>\<open>try\<close>, so when the destination is an existing regular file
  the \<open>FileExistsError\<close> of \<^verbatim>\<open>mkdir\<close> reaches the caller, and nothing is printed on the
  error stream.
\<close>

theorem extract_mkdir_escapes:
  "(\<exists>r. fst (archive L src dst progress benchmark w) = Ok r) \<and>
   extract_archive L [''a.zst''] [''out''] progress benchmark
       \<lparr>fs = Dir [(''a.zst'', File []), (''out'', File [])], stdout = [], stderr = []\<rparr> =
     (Raised FileExistsError,
      \<lparr>fs = Dir [(''a.zst'', File []), (''out'', File [])], stdout = [], stderr = []\<rparr>)"
proof -
  have "\<exists>r. fst (archive L src dst progress benchmark w) = Ok r"
    by (auto simp: archive_def no_result try_except_returns split: sum.splits)
  then show ?thesis
    by (simp add: extract_archive_def exists_def fmt_a_zst io_bind_def io_mkdir_def)
qed

section \<open>Member names of the tar stream\<close>

lemma fmt_x_tar_bz2: "archive_format [''x.tar.bz2''] = Inr (Tar, Bz2)"
  by code_simp

lemma fmt_x_tar_zst: "archive_format [''x.tar.zst''] = Inr (Tar, Zst)"
  by code_simp

text \<open>
  C4. For a directory \<^verbatim>\<open>d\<close> that holds one file \<^verbatim>\<open>f\<close>, the members that
  \<^verbatim>\<open>create_tar_archive\<close> builds, and that the \<^verbatim>\<open>.tar.zst\<close> archive holds, are named
  relative to the source: \<^verbatim>\<open>f\<close>. The \<^verbatim>\<open>.tar.bz2\<close> archive of the same source holds a
  member for the directory itself and names the file \<^verbatim>\<open>d/f\<close>: the name of the root is
  part of every member's path.
\<close>

theorem tar_bz2_names_include_root:
  "create_tar_archive (Dir [(''d'', Dir [(''f'', File [1])])]) [''d''] = [([''f''], TFile [1])] \<and>
   lookup (fs (snd (archive L [''d''] [''x.tar.zst''] False False
       \<lparr>fs = Dir [(''d'', Dir [(''f'', File [1])])], stdout = [], stderr = []\<rparr>))) [''x.tar.zst''] =
     Some (File (fst (zstd_compress L (zstd_compressor L) (tar_write L [([''f''], TFile [1])])) @
                 zstd_flush L (snd (zstd_compress L (zstd_compressor L) (tar_write L [([''f''], TFile [1])]))))) \<and>
   lookup (fs (snd (archive L [''d''] [''x.tar.bz2''] False False
       \<lparr>fs = Dir [(''d'', Dir [(''f'', File [1])])], stdout = [], stderr = []\<rparr>))) [''x.tar.bz2''] =
     Some (File (bz2_compress L (tar_write L [([''d''], TDir), ([''d'', ''f''], TFile [1])])))"
  by (simp add: archive_def exists_def is_dir_def is_file_def fmt_x_tar_bz2 fmt_x_tar_zst try_except_def
      io_bind_def archive_build_def build_tar_def io_return_def create_tar_archive_def tar_bz2_write_def
      io_write_bytes_def path_name_def archive_report_def io_st_size_def st_size_def print_out_def
      compress_with_zstd_def file_items_def is_Dir_def Let_def split: prod.splits)

section \<open>Normal forms of the printing steps\<close>

lemma emit_simps [simp]:
  "fs (emit evs w) = fs w" "stderr (emit evs w) = stderr w" "stdout (emit evs w) = stdout w @ evs"
  "emit [] w = w" "emit evs (emit evs' w) = emit (evs' @ evs) w"
  "emit evs (w\<lparr>fs := t\<rparr>) = (emit evs w)\<lparr>fs := t\<rparr>"
  by (simp_all add: emit_def)

text \<open>
  A call of \<^verbatim>\<open>print_progress\<close> either raises and leaves the output as it is, or appends
  its bar. Every call in the two operations has a count between zero and the total, or
  a total of zero; such a call returns.
\<close>

lemma print_progress_run:
  "print_progress cur tot pfx w =
     (fst (print_progress cur tot pfx \<lparr>fs = Dir [], stdout = [], stderr = []\<rparr>),
      emit (bar cur tot pfx) w)"
proof (cases "tot \<le> 0")
  case True
  then show ?thesis
    by (simp add: print_progress_skip bar_def)
next
  case False
  then have "0 < tot" by simp
  then show ?thesis
    by (simp add: print_progress_cases bar_def emit_def split: result.splits)
qed

lemma print_progress_Ok:
  "print_progress cur tot pfx w = (Ok x, w') \<Longrightarrow> w' = emit (bar cur tot pfx) w"
  using print_progress_run [of cur tot pfx w] by simp

lemma print_progress_stderr: "stderr (snd (print_progress cur tot pfx w)) = stderr w"
  using print_progress_run [of cur tot pfx w] by simp

lemma print_progress_eq:
  assumes "tot \<le> 0 \<or> 0 \<le> cur \<and> cur \<le> tot"
  shows "print_progress cur tot pfx w = (Ok (), emit (bar cur tot pfx) w)"
proof (cases "tot \<le> 0")
  case True
  then show ?thesis
    by (simp add: print_progress_skip bar_def)
next
  case False
  with assms have tot: "0 < tot" and cur: "0 \<le> cur" and le: "cur \<le> tot"
    by simp_all
  have "tot * 1 \<le> tot * 2 ^ 1023"
    using tot by (intro mult_left_mono) simp_all
  with le have "cur \<le> tot * 2 ^ 1023"
    by simp
  from print_progress_returns [OF tot cur this, of pfx] show ?thesis
    by (auto simp: bar_def emit_def)
qed

lemma bar_values_eq:
  assumes "tot \<le> 0 \<or> 0 \<le> cur \<and> cur \<le> tot"
  shows "concat (map bar_values (bar cur tot pfx)) = (if tot \<le> 0 then [] else [(pfx, cur, tot)])"
proof (cases "tot \<le> 0")
  case True
  then show ?thesis
    by (simp add: print_progress_skip bar_def)
next
  case False
  with assms have tot: "0 < tot" and cur: "0 \<le> cur" and le: "cur \<le> tot"
    by simp_all
  have "tot * 1 \<le> tot * 2 ^ 1023"
    using tot by (intro mult_left_mono) simp_all
  with le have "cur \<le> tot * 2 ^ 1023"
    by simp
  from print_progress_returns [OF tot cur this, of pfx] show ?thesis
    using False by (auto simp: bar_def)
qed

lemma print_out_eq: "print_out ev w = (Ok (), emit [ev] w)"
  by (simp add: print_out_def emit_def)

lemma io_bind_Ok: "m w = (Ok x, w') \<Longrightarrow> io_bind m f w = f x w'"
  by (simp add: io_bind_def)

lemma io_bind_Raised: "m w = (Raised e, w') \<Longrightarrow> io_bind m f w = (Raised e, w')"
  by (simp add: io_bind_def)

section \<open>Chunked and non-chunked compression\<close>

lemma compress_loop_eq:
  "compress_loop L data offsets c acc w =
     (Ok (snd (zstd_feed L c (windows data offsets)),
          acc @ fst (zstd_feed L c (windows data offsets))),
      emit (chunk_bars (length data) Compressing offsets) w)"
proof (induction offsets arbitrary: c acc w)
  case Nil
  then show ?case
    by (simp add: io_return_def windows_def chunk_bars_def)
next
  case (Cons i rest)
  show ?case
    using Cons.IH
    by (simp add: windows_def chunk_bars_def Let_def io_bind_Ok [OF print_progress_eq]
        split: prod.splits)
qed

lemma zstd_feed_concat:
  assumes st: "zstd_streaming L"
  shows "chunks \<noteq> [] \<Longrightarrow> [] \<notin> set chunks \<Longrightarrow>
         zstd_feed L c chunks = zstd_compress L c (concat chunks)"
proof (induction chunks arbitrary: c)
  case Nil
  then show ?case by simp
next
  case (Cons a chunks)
  show ?case
  proof (cases "chunks = []")
    case True
    then show ?thesis by (simp split: prod.splits)
  next
    case False
    with Cons.prems have a: "a \<noteq> []" and n: "[] \<notin> set chunks"
      by auto
    from False n have b: "concat chunks \<noteq> []"
      by (cases chunks) auto
    from st a b have "zstd_compress L c (a @ concat chunks) =
         (fst (zstd_compress L c a) @ fst (zstd_compress L (snd (zstd_compress L c a)) (concat chunks)),
          snd (zstd_compress L (snd (zstd_compress L c a)) (concat chunks)))"
      unfolding zstd_streaming_def by blast
    then show ?thesis
      using Cons.IH [OF False n] by (simp split: prod.splits)
  qed
qed

lemma windows_concat_aux:
  "concat (map (\<lambda>k. take n (drop (k * n) xs)) [0..<m]) = take (m * n) xs"
proof (induction m)
  case 0
  then show ?case by simp
next
  case (Suc m)
  have "take (m * n) xs @ take n (drop (m * n) xs) = take (m * n + n) xs"
    by (simp add: take_add)
  then show ?case
    using Suc by (simp add: add.commute)
qed

lemma range_covers:
  assumes "0 < n"
  shows "a \<le> ((a + n - 1) div n) * (n::nat)"
proof -
  have "(a + n - 1) mod n < n"
    using assms by simp
  moreover have "(a + n - 1) div n * n + (a + n - 1) mod n = a + n - 1"
    by (rule div_mult_mod_eq)
  ultimately show ?thesis
    by linarith
qed

lemma windows_concat_gen:
  assumes "0 < n"
  shows "concat (map (\<lambda>i. take n (drop i xs)) (map (\<lambda>k. k * n) [0..<(length xs + n - 1) div n])) = xs"
  using windows_concat_aux [of n xs "(length xs + n - 1) div n"] range_covers [OF assms, of "length xs"]
  by (simp add: comp_def)

lemma windows_concat: "concat (windows data (py_range (length data) 8192)) = data"
  unfolding windows_def py_range_def
  by (rule windows_concat_gen) simp

lemma py_range_less: "0 < s \<Longrightarrow> i \<in> set (py_range n s) \<Longrightarrow> i < n"
proof -
  assume s: "0 < s" and "i \<in> set (py_range n s)"
  then obtain k where k: "k < (n + s - 1) div s" and i: "i = k * s"
    by (auto simp: py_range_def)
  from k have "(k + 1) * s \<le> (n + s - 1) div s * s"
    by (intro mult_le_mono1) simp
  also have "\<dots> \<le> n + s - 1"
    by simp
  finally show "i < n"
    using i s by simp
qed

lemma windows_nonempty: "[] \<notin> set (windows data (py_range (length data) 8192))"
proof
  assume "[] \<in> set (windows data (py_range (length data) 8192))"
  then obtain i where i: "i \<in> set (py_range (length data) 8192)" and "take 8192 (drop i data) = []"
    by (auto simp: windows_def)
  then have "length data \<le> i"
    by simp
  with py_range_less [OF _ i] show False
    by simp
qed


lemma compress_with_zstd_run:
  "compress_with_zstd L data output_path show_progress w =
     io_write_bytes output_path (zstd_written L data show_progress)
       (emit (if show_progress
              then chunk_bars (length data) Compressing (py_range (length data) 8192)
                     @ bar (int (length data)) (int (length data)) Compressing @ [Newline]
              else []) w)"
  by (simp add: compress_with_zstd_def Let_def zstd_frame_def zstd_written_def
      io_bind_Ok [OF compress_loop_eq] io_bind_Ok [OF print_progress_eq]
      io_bind_Ok [OF print_out_eq] split: prod.splits)

lemma compress_with_bz2_eq:
  "compress_with_bz2 L data output_path show_progress w =
     io_write_bytes output_path (bz2_compress L data)
       (emit (if show_progress
              then bar (int (length data)) (int (length data)) Compressing @ [Newline]
              else []) w)"
  by (simp add: compress_with_bz2_def Let_def io_bind_Ok [OF print_progress_eq]
      io_bind_Ok [OF print_out_eq])

lemma io_write_bytes_emit:
  "io_write_bytes p data (emit evs w) =
     (fst (io_write_bytes p data w), emit evs (snd (io_write_bytes p data w)))"
  by (simp add: io_write_bytes_def split: result.splits)

text \<open>
  For an input that is not empty and a streaming compressor, the chunked path writes the
  zstd frame of the input, as the non-chunked path does.
\<close>

lemma zstd_written_frame:
  assumes "zstd_streaming L" and "data \<noteq> []"
  shows "zstd_written L data show_progress = zstd_frame L data"
proof -
  let ?ws = "windows data (py_range (length data) 8192)"
  have "?ws \<noteq> []"
    using windows_concat [of data] assms(2) by auto
  from zstd_feed_concat [OF assms(1) this windows_nonempty]
  have "zstd_feed L (zstd_compressor L) ?ws = zstd_compress L (zstd_compressor L) data"
    by (simp add: windows_concat)
  then show ?thesis
    by (simp add: zstd_written_def zstd_frame_def)
qed

lemma chunked_equals_unchunked_nonempty:
  assumes "zstd_streaming L" and "data \<noteq> []"
  shows "fst (compress_with_zstd L data output_path True w) =
           fst (compress_with_zstd L data output_path False w) \<and>
         fs (snd (compress_with_zstd L data output_path True w)) =
           fs (snd (compress_with_zstd L data output_path False w))"
  by (simp add: compress_with_zstd_run zstd_written_frame [OF assms] io_write_bytes_emit)

lemma toy_streaming: "zstd_streaming toy_ext"
  by (simp add: zstd_streaming_def toy_ext_def)

lemma stored_streaming: "zstd_streaming stored_ext"
  by (simp add: zstd_streaming_def stored_ext_def split: prod.splits)

text \<open>
  C2. The two paths of \<^verbatim>\<open>compress_with_bz2\<close> both write \<^verbatim>\<open>bz2.compress(data)\<close>, for
  every input. The two paths of \<^verbatim>\<open>compress_with_zstd\<close> call the library differently on
  the empty input: the loop of the chunked path has no window to feed, so the file it
  writes is what \<^verbatim>\<open>flush\<close> returns on the fresh compressor, while the non-chunked path
  calls \<^verbatim>\<open>compress\<close> with no bytes first and writes what that call and the \<^verbatim>\<open>flush\<close>
  after it return. The two files are equal only for a library whose \<^verbatim>\<open>flush\<close> does not
  tell a call without bytes from no call. The instance \<open>stored_ext\<close>, which chooses its
  frame header as libzstd does, writes two different files.
\<close>

theorem chunked_path_skips_compress_on_empty_input:
  "compress_with_zstd L [] [''o.zst''] True \<lparr>fs = Dir [], stdout = [], stderr = []\<rparr> =
     (Ok (), \<lparr>fs = Dir [(''o.zst'', File (zstd_flush L (zstd_compressor L)))],
              stdout = [Newline], stderr = []\<rparr>) \<and>
   compress_with_zstd L [] [''o.zst''] False \<lparr>fs = Dir [], stdout = [], stderr = []\<rparr> =
     (Ok (), \<lparr>fs = Dir [(''o.zst'',
                File (fst (zstd_compress L (zstd_compressor L) [])
                        @ zstd_flush L (snd (zstd_compress L (zstd_compressor L) []))))],
              stdout = [], stderr = []\<rparr>) \<and>
   compress_with_zstd stored_ext [] [''o.zst''] True \<lparr>fs = Dir [], stdout = [], stderr = []\<rparr> =
     (Ok (), \<lparr>fs = Dir [(''o.zst'', File [40, 181, 47, 253, 32, 0, 1, 0, 0])],
              stdout = [Newline], stderr = []\<rparr>) \<and>
   compress_with_zstd stored_ext [] [''o.zst''] False \<lparr>fs = Dir [], stdout = [], stderr = []\<rparr> =
     (Ok (), \<lparr>fs = Dir [(''o.zst'', File [40, 181, 47, 253, 0, 88, 1, 0, 0])],
              stdout = [], stderr = []\<rparr>) \<and>
   fst (compress_with_bz2 L data output_path True w) =
     fst (compress_with_bz2 L data output_path False w) \<and>
   fs (snd (compress_with_bz2 L data output_path True w)) =
     fs (snd (compress_with_bz2 L data output_path False w)) \<and>
   compress_with_bz2 L data output_path False w =
     io_write_bytes output_path (bz2_compress L data) w"
proof -
  let ?w = "\<lparr>fs = Dir [], stdout = [], stderr = []\<rparr>"
  have e: "py_range 0 8192 = []"
    by (simp add: py_range_def)
  have c: "compress_with_zstd L [] [''o.zst''] True ?w =
     (Ok (), \<lparr>fs = Dir [(''o.zst'', File (zstd_flush L (zstd_compressor L)))],
              stdout = [Newline], stderr = []\<rparr>)"
    by (simp add: compress_with_zstd_run zstd_written_def e windows_def chunk_bars_def
        bar_def print_progress_skip io_write_bytes_def emit_def)
  have u: "compress_with_zstd L [] [''o.zst''] False ?w =
     (Ok (), \<lparr>fs = Dir [(''o.zst'',
                File (fst (zstd_compress L (zstd_compressor L) [])
                        @ zstd_flush L (snd (zstd_compress L (zstd_compressor L) []))))],
              stdout = [], stderr = []\<rparr>)"
    by (simp add: compress_with_zstd_run zstd_written_def zstd_frame_def io_write_bytes_def)
  have sc: "compress_with_zstd stored_ext [] [''o.zst''] True ?w =
     (Ok (), \<lparr>fs = Dir [(''o.zst'', File [40, 181, 47, 253, 32, 0, 1, 0, 0])],
              stdout = [Newline], stderr = []\<rparr>)"
    by (simp add: compress_with_zstd_run zstd_written_def e windows_def chunk_bars_def
        bar_def print_progress_skip io_write_bytes_def emit_def stored_ext_def block_header_def)
  have su: "compress_with_zstd stored_ext [] [''o.zst''] False ?w =
     (Ok (), \<lparr>fs = Dir [(''o.zst'', File [40, 181, 47, 253, 0, 88, 1, 0, 0])],
              stdout = [], stderr = []\<rparr>)"
    by (simp add: compress_with_zstd_run zstd_written_def zstd_frame_def io_write_bytes_def
        stored_ext_def block_header_def)
  show ?thesis
    using c u sc su by (simp add: compress_with_bz2_eq io_write_bytes_emit)
qed

section \<open>Lookups after writes and after mkdir\<close>

lemma lookup_Dir_Cons:
  "lookup (Dir es) (c # cs) = (case map_of es c of None \<Rightarrow> None | Some m \<Rightarrow> lookup m cs)"
  by simp

lemma lookup_File: "lookup (File b) q = (if q = [] then Some (File b) else None)"
  by (cases q) simp_all

lemma map_of_snoc:
  "map_of (es @ [(c, x)]) c' =
     (case map_of es c' of Some y \<Rightarrow> Some y | None \<Rightarrow> if c' = c then Some x else None)"
  by (simp add: map_add_def split: option.splits)

lemma lookup_snoc:
  "lookup (Dir (es @ [(c, x)])) (c' # qs) =
     (case map_of es c' of
        Some y \<Rightarrow> lookup y qs
      | None \<Rightarrow> if c' = c then lookup x qs else None)"
  by (simp add: map_add_def split: option.splits)

lemma lookup_update:
  "lookup (Dir (AList.update c m es)) (c' # qs) =
     (if c' = c then lookup m qs else lookup (Dir es) (c' # qs))"
  by (simp add: AList.update_conv')

lemmas lookup_Dir = lookup.simps(3)

lemma write_bytes_lookup_same:
  "write_bytes tree p data = Ok t \<Longrightarrow> lookup t p = Some (File data)"
proof (induction tree p data arbitrary: t rule: write_bytes.induct)
  case (4 es c cs data)
  show ?case
  proof (cases "map_of es c")
    case None
    with 4 show ?thesis
      by (auto simp: map_add_def split: if_splits)
  next
    case (Some m)
    with 4 show ?thesis
      by (auto simp: AList.update_conv' split: result.splits)
  qed
qed simp_all

lemma write_bytes_lookup_other:
  "write_bytes tree p data = Ok t \<Longrightarrow> \<not> prefix q p \<Longrightarrow> lookup t q = lookup tree q"
proof (induction tree p data arbitrary: t q rule: write_bytes.induct)
  case (1 b data)
  then show ?case by (cases q) auto
next
  case (4 es c cs data)
  from "4.prems"(2) obtain c' qs where q: "q = c' # qs"
    by (cases q) auto
  show ?case
  proof (cases "map_of es c")
    case None
    with 4 q show ?thesis
      by (auto simp: lookup_File map_add_def split: if_splits option.splits)
  next
    case (Some m)
    with 4 q show ?thesis
      by (auto simp: AList.update_conv' split: result.splits)
  qed
qed simp_all

lemma write_bytes_dirs:
  "write_bytes tree p data = Ok t \<Longrightarrow> strict_prefix q p \<Longrightarrow> is_dir t q \<and> is_dir tree q"
proof (induction tree p data arbitrary: t q rule: write_bytes.induct)
  case (4 es c cs data)
  show ?case
  proof (cases q)
    case Nil
    with 4 show ?thesis
      by (auto simp: is_dir_def split: option.splits result.splits if_splits)
  next
    case (Cons c' qs)
    with "4.prems" have c': "c' = c" and qs: "strict_prefix qs cs"
      by (auto simp: strict_prefix_def)
    show ?thesis
    proof (cases "map_of es c")
      case None
      with 4 qs show ?thesis by (auto split: if_splits)
    next
      case (Some m)
      with "4.prems" obtain m' where m': "write_bytes m cs data = Ok m'"
        and t: "t = Dir (AList.update c m' es)"
        by (auto split: result.splits)
      from "4.IH" [OF Some m' qs] show ?thesis
        using Some t Cons c' by (simp add: is_dir_def AList.update_conv')
    qed
  qed
qed (auto simp: strict_prefix_def)

lemma write_bytes_succeeds:
  "p \<noteq> [] \<Longrightarrow> is_dir tree (butlast p) \<Longrightarrow> \<not> is_dir tree p \<Longrightarrow>
   \<exists>t. write_bytes tree p data = Ok t"
proof (induction tree p data rule: write_bytes.induct)
  case (4 es c cs data)
  show ?case
  proof (cases "map_of es c")
    case None
    with 4 show ?thesis
      by (cases cs) (auto simp: is_dir_def lookup_Dir)
  next
    case (Some m)
    show ?thesis
    proof (cases cs)
      case Nil
      with 4 Some show ?thesis
        by (cases m) (auto simp: is_dir_def lookup_Dir)
    next
      case (Cons a list)
      with 4 Some have "\<exists>t. write_bytes m cs data = Ok t"
        by (auto simp: is_dir_def lookup_Dir)
      with Some show ?thesis by auto
    qed
  qed
qed (auto simp: is_dir_def lookup_File split: if_splits)

lemma lookup_mkchain:
  "lookup (mkchain cs) q = (if prefix q cs then Some (mkchain (drop (length q) cs)) else None)"
proof (induction cs arbitrary: q)
  case Nil
  then show ?case by (cases q) simp_all
next
  case (Cons c cs)
  then show ?case by (cases q) simp_all
qed

lemma is_dir_mkchain: "prefix q cs \<Longrightarrow> is_dir (mkchain cs) q"
  by (cases "drop (length q) cs") (simp_all add: is_dir_def lookup_mkchain)

lemma mkdir_is_dir: "mkdir tree p = Ok t \<Longrightarrow> prefix q p \<Longrightarrow> is_dir t q"
proof (induction tree p arbitrary: t q rule: mkdir.induct)
  case (1 es)
  then show ?case by (auto simp: is_dir_def)
next
  case (4 es c cs)
  show ?case
  proof (cases q)
    case Nil
    with 4 show ?thesis
      by (auto simp: is_dir_def split: option.splits result.splits)
  next
    case (Cons c' qs)
    with "4.prems" have c': "c' = c" and qs: "prefix qs cs"
      by auto
    show ?thesis
    proof (cases "map_of es c")
      case None
      with 4 Cons c' qs is_dir_mkchain [OF qs] show ?thesis
        by (auto simp: is_dir_def map_add_def)
    next
      case (Some m)
      with "4.prems" obtain m' where m': "mkdir m cs = Ok m'"
        and t: "t = Dir (AList.update c m' es)"
        by (auto split: result.splits)
      from "4.IH" [OF Some m' qs] show ?thesis
        using t Cons c' by (simp add: is_dir_def AList.update_conv')
    qed
  qed
qed simp_all

lemma mkdir_lookup_other:
  "mkdir tree p = Ok t \<Longrightarrow> \<not> prefix q p \<Longrightarrow> lookup t q = lookup tree q"
proof (induction tree p arbitrary: t q rule: mkdir.induct)
  case (4 es c cs)
  from "4.prems"(2) obtain c' qs where q: "q = c' # qs"
    by (cases q) auto
  show ?case
  proof (cases "map_of es c")
    case None
    with 4 q show ?thesis
      by (auto simp: lookup_mkchain map_add_def split: if_splits option.splits)
  next
    case (Some m)
    with 4 q show ?thesis
      by (auto simp: AList.update_conv' split: result.splits)
  qed
qed simp_all

lemma mkdir_succeeds:
  "(\<And>q. prefix q p \<Longrightarrow> \<not> is_file tree q) \<Longrightarrow> \<exists>t. mkdir tree p = Ok t"
proof (induction tree p rule: mkdir.induct)
  case (2 b)
  from "2.prems" [of "[]"] show ?case by (simp add: is_file_def)
next
  case (3 b c cs)
  from "3.prems" [of "[]"] show ?case by (simp add: is_file_def)
next
  case (4 es c cs)
  show ?case
  proof (cases "map_of es c")
    case None
    then show ?thesis by simp
  next
    case (Some m)
    have "\<not> is_file m q" if "prefix q cs" for q
      using "4.prems" [of "c # q"] that Some by (simp add: is_file_def)
    with "4.IH" [OF Some] obtain t where "mkdir m cs = Ok t"
      by blast
    with Some show ?thesis by simp
  qed
qed simp_all

lemma mkdir_existing: "is_dir tree p \<Longrightarrow> mkdir tree p = Ok tree"
proof (induction tree p rule: mkdir.induct)
  case (4 es c cs)
  then obtain m where m: "map_of es c = Some m" and d: "is_dir m cs"
    by (auto simp: is_dir_def split: option.splits)
  have "AList.update c m es = es"
    using m by (simp add: AList.update_triv)
  with 4 m d show ?case by simp
qed (simp_all add: is_dir_def)

lemma lookup_append:
  "lookup tree (p @ r) = (case lookup tree p of None \<Rightarrow> None | Some n \<Rightarrow> lookup n r)"
proof (induction tree p rule: lookup.induct)
  case (2 b c cs)
  then show ?case by simp
qed (auto split: option.splits)

lemma lookup_strict_prefix_dir:
  assumes "lookup tree p = Some n" and "strict_prefix q p"
  shows "is_dir tree q"
proof -
  from assms(2) obtain r where p: "p = q @ r" and r: "r \<noteq> []"
    by (auto simp: strict_prefix_def prefix_def)
  from assms(1) p r show ?thesis
    by (cases "lookup tree q")
       (auto simp: lookup_append is_dir_def lookup_File split: node.splits)
qed

lemma prefix_butlast: "P \<noteq> [] \<Longrightarrow> prefix q (butlast P) \<longleftrightarrow> strict_prefix q P"
  by (cases P rule: rev_cases) (auto simp: prefix_snoc strict_prefix_def)

lemma is_dir_not_file: "is_dir t q \<Longrightarrow> \<not> is_file t q"
  by (auto simp: is_dir_def is_file_def split: option.splits node.splits)

lemma exists_cases: "exists t q \<Longrightarrow> is_dir t q \<or> is_file t q"
  by (auto simp: exists_def is_dir_def is_file_def split: option.splits node.splits)

lemma strict_prefix_is_dir: "exists t p \<Longrightarrow> strict_prefix q p \<Longrightarrow> is_dir t q"
  using lookup_strict_prefix_dir by (auto simp: exists_def split: option.splits)

lemma io_mkdir_eq:
  "io_mkdir p w = (case mkdir (fs w) p of Raised e \<Rightarrow> (Raised e, w) | Ok t \<Rightarrow> (Ok (), w\<lparr>fs := t\<rparr>))"
  by (simp add: io_mkdir_def)

lemma put_file:
  assumes nofile: "\<And>q. strict_prefix q P \<Longrightarrow> \<not> is_file (fs w) q"
    and nodir: "\<not> is_dir (fs w) P"
    and ne: "name \<noteq> []"
    and P: "P = dest_dir @ name"
  shows "\<exists>t. extract_member dest_dir (name, TFile b) w = (Ok (), w\<lparr>fs := t\<rparr>) \<and>
             lookup t P = Some (File b) \<and>
             (\<forall>q. strict_prefix q P \<longrightarrow> is_dir t q) \<and>
             (\<forall>q. \<not> prefix q P \<longrightarrow> lookup t q = lookup (fs w) q)"
proof -
  let ?up = "dest_dir @ butlast name"
  have up: "?up = butlast P" and Pne: "P \<noteq> []"
    using ne P by (simp_all add: butlast_append)
  have pre: "prefix q ?up \<longleftrightarrow> strict_prefix q P" for q
    using prefix_butlast [OF Pne] up by simp
  have "\<exists>t1. (if exists (fs w) ?up then io_return () w else io_mkdir ?up w) = (Ok (), w\<lparr>fs := t1\<rparr>) \<and>
          (\<forall>q. strict_prefix q P \<longrightarrow> is_dir t1 q) \<and>
          (\<forall>q. \<not> strict_prefix q P \<longrightarrow> lookup t1 q = lookup (fs w) q)"
  proof (cases "exists (fs w) ?up")
    case True
    have "is_dir (fs w) q" if "strict_prefix q P" for q
    proof (cases "q = ?up")
      case True
      with \<open>exists (fs w) ?up\<close> exists_cases nofile that show ?thesis by blast
    next
      case False
      with that pre have "strict_prefix q ?up" by (simp add: strict_prefix_def)
      with True show ?thesis by (rule strict_prefix_is_dir)
    qed
    with True show ?thesis
      by (intro exI [of _ "fs w"]) (simp add: io_return_def)
  next
    case False
    have "\<exists>t. mkdir (fs w) ?up = Ok t"
      by (rule mkdir_succeeds) (use nofile pre in blast)
    then obtain t1 where t1: "mkdir (fs w) ?up = Ok t1" ..
    show ?thesis
      using False t1 mkdir_is_dir [OF t1] mkdir_lookup_other [OF t1] pre
      by (intro exI [of _ t1]) (simp add: io_mkdir_eq)
  qed
  then obtain t1 where s1: "(if exists (fs w) ?up then io_return () w else io_mkdir ?up w) = (Ok (), w\<lparr>fs := t1\<rparr>)"
    and d1: "\<And>q. strict_prefix q P \<Longrightarrow> is_dir t1 q"
    and o1: "\<And>q. \<not> strict_prefix q P \<Longrightarrow> lookup t1 q = lookup (fs w) q"
    by blast
  have "is_dir t1 (butlast P)"
    using d1 [of "butlast P"] pre [of "butlast P"] up by simp
  moreover have "\<not> is_dir t1 P"
    using o1 [of P] nodir by (simp add: is_dir_def)
  ultimately obtain t2 where t2: "write_bytes t1 P b = Ok t2"
    using write_bytes_succeeds [OF Pne] by blast
  have "extract_member dest_dir (name, TFile b) w = (Ok (), w\<lparr>fs := t2\<rparr>)"
    using s1 t2 P by (simp add: extract_member_def io_bind_def io_write_bytes_def)
  moreover have "lookup t2 P = Some (File b)"
    using t2 by (rule write_bytes_lookup_same)
  moreover have "is_dir t2 q" if "strict_prefix q P" for q
    using write_bytes_dirs [OF t2 that] by simp
  moreover have "lookup t2 q = lookup (fs w) q" if "\<not> prefix q P" for q
    using write_bytes_lookup_other [OF t2 that] o1 [of q] that by (simp add: strict_prefix_def)
  ultimately show ?thesis by blast
qed

lemma is_dir_prefix: "is_dir t p \<Longrightarrow> prefix q p \<Longrightarrow> is_dir t q"
proof (cases "q = p")
  case False
  assume "is_dir t p" "prefix q p"
  with False have "exists t p" "strict_prefix q p"
    by (auto simp: is_dir_def exists_def strict_prefix_def split: option.splits)
  then show ?thesis by (rule strict_prefix_is_dir)
qed simp

lemma strict_prefix_append_cases:
  assumes "strict_prefix q (dest @ p)"
  obtains "prefix q dest" | r where "q = dest @ r" "strict_prefix r p"
  using assms by (auto simp: strict_prefix_def prefix_append)

lemma file_not_dir: "lookup t q = Some (File x) \<Longrightarrow> \<not> is_dir t q"
  by (simp add: is_dir_def)

lemma extract_file_mirrors:
  assumes m: "mirrors (fs w) dest S" and s: "lookup S p = Some (File b)"
  shows "\<exists>t. extract_member dest (p, TFile b) w = (Ok (), w\<lparr>fs := t\<rparr>) \<and>
             mirrors t dest S \<and>
             lookup t (dest @ p) = Some (File b) \<and>
             (\<forall>q x. lookup (fs w) (dest @ q) = Some (File x) \<longrightarrow>
                    lookup t (dest @ q) = Some (File x))"
proof -
  from m have dd: "is_dir (fs w) dest"
    and mf: "\<And>r x. lookup (fs w) (dest @ r) = Some (File x) \<Longrightarrow> lookup S r = Some (File x)"
    and md: "\<And>r. is_dir (fs w) (dest @ r) \<Longrightarrow> is_dir S r"
    by (auto simp: mirrors_def)
  from md [of "[]"] dd have "is_dir S []" by simp
  with s have pne: "p \<noteq> []"
    by (auto simp: is_dir_def)
  have sd: "is_dir S r" if "strict_prefix r p" for r
    using s that by (rule lookup_strict_prefix_dir)
  have nofile: "\<not> is_file (fs w) q" if "strict_prefix q (dest @ p)" for q
    using that
  proof (cases rule: strict_prefix_append_cases)
    case 1
    with dd show ?thesis
      using is_dir_prefix is_dir_not_file by blast
  next
    case (2 r)
    show ?thesis
    proof
      assume "is_file (fs w) q"
      then obtain x where "lookup (fs w) (dest @ r) = Some (File x)"
        using 2 by (auto simp: is_file_def split: option.splits node.splits)
      from mf [OF this] sd [OF 2(2)] show False
        by (simp add: is_dir_def)
    qed
  qed
  have nodir: "\<not> is_dir (fs w) (dest @ p)"
    using md [of p] s by (auto simp: is_dir_def)
  from put_file [OF nofile nodir pne refl, of b]
  obtain t where ex: "extract_member dest (p, TFile b) w = (Ok (), w\<lparr>fs := t\<rparr>)"
    and tp: "lookup t (dest @ p) = Some (File b)"
    and td: "\<And>q. strict_prefix q (dest @ p) \<Longrightarrow> is_dir t q"
    and tn: "\<And>q. \<not> prefix q (dest @ p) \<Longrightarrow> lookup t q = lookup (fs w) q"
    by blast
  have keep: "lookup t (dest @ q) = Some (File x)"
    if "lookup (fs w) (dest @ q) = Some (File x)" for q x
  proof (cases "prefix q p")
    case False
    with tn [of "dest @ q"] that show ?thesis by simp
  next
    case True
    show ?thesis
    proof (cases "q = p")
      case True
      with mf [OF that] s tp show ?thesis by simp
    next
      case False
      with \<open>prefix q p\<close> have "strict_prefix (dest @ q) (dest @ p)"
        by (simp add: strict_prefix_def)
      from nofile [OF this] that show ?thesis
        by (simp add: is_file_def)
    qed
  qed
  have files: "lookup S r = Some (File x)" if "lookup t (dest @ r) = Some (File x)" for r x
  proof (cases "prefix r p")
    case False
    with tn [of "dest @ r"] that have "lookup (fs w) (dest @ r) = Some (File x)" by simp
    then show ?thesis by (rule mf)
  next
    case True
    show ?thesis
    proof (cases "r = p")
      case True
      with that tp s show ?thesis by simp
    next
      case False
      with \<open>prefix r p\<close> have "strict_prefix (dest @ r) (dest @ p)"
        by (simp add: strict_prefix_def)
      from td [OF this] that show ?thesis
        by (simp add: is_dir_def)
    qed
  qed
  have dirs: "is_dir S r" if "is_dir t (dest @ r)" for r
  proof (cases "prefix r p")
    case False
    with tn [of "dest @ r"] that have "is_dir (fs w) (dest @ r)" by (simp add: is_dir_def)
    then show ?thesis by (rule md)
  next
    case True
    show ?thesis
    proof (cases "r = p")
      case True
      with that tp show ?thesis by (simp add: is_dir_def)
    next
      case False
      with \<open>prefix r p\<close> have "strict_prefix r p"
        by (simp add: strict_prefix_def)
      then show ?thesis by (rule sd)
    qed
  qed
  have "is_dir t dest"
    using td [of dest] pne by (simp add: strict_prefix_def)
  with files dirs have "mirrors t dest S"
    by (simp add: mirrors_def)
  with ex tp keep show ?thesis by blast
qed

lemma extractall_mirrors:
  assumes "mirrors (fs w) dest S" and "file_members S ms"
  shows "\<exists>t. extractall dest ms w = (Ok (), w\<lparr>fs := t\<rparr>) \<and>
             mirrors t dest S \<and>
             (\<forall>q x. lookup (fs w) (dest @ q) = Some (File x) \<longrightarrow>
                    lookup t (dest @ q) = Some (File x)) \<and>
             (\<forall>p b. (p, TFile b) \<in> set ms \<longrightarrow> lookup t (dest @ p) = Some (File b))"
  using assms
proof (induction ms arbitrary: w)
  case Nil
  then show ?case
    by (intro exI [of _ "fs w"]) (simp add: io_return_def)
next
  case (Cons mem ms)
  obtain p m where mem: "mem = (p, m)" by (cases mem)
  with Cons.prems(2) obtain b where b: "m = TFile b" and s: "lookup S p = Some (File b)"
    and rest: "file_members S ms"
    by (auto simp: file_members_def split: member.splits)
  from extract_file_mirrors [OF Cons.prems(1) s]
  obtain t1 where e1: "extract_member dest (p, TFile b) w = (Ok (), w\<lparr>fs := t1\<rparr>)"
    and m1: "mirrors t1 dest S"
    and p1: "lookup t1 (dest @ p) = Some (File b)"
    and k1: "\<And>q x. lookup (fs w) (dest @ q) = Some (File x) \<Longrightarrow> lookup t1 (dest @ q) = Some (File x)"
    by blast
  from Cons.IH [of "w\<lparr>fs := t1\<rparr>"] m1 rest
  obtain t2 where e2: "extractall dest ms (w\<lparr>fs := t1\<rparr>) = (Ok (), w\<lparr>fs := t2\<rparr>)"
    and m2: "mirrors t2 dest S"
    and k2: "\<And>q x. lookup t1 (dest @ q) = Some (File x) \<Longrightarrow> lookup t2 (dest @ q) = Some (File x)"
    and a2: "\<And>p b. (p, TFile b) \<in> set ms \<Longrightarrow> lookup t2 (dest @ p) = Some (File b)"
    by auto
  have "extractall dest (mem # ms) w = (Ok (), w\<lparr>fs := t2\<rparr>)"
    using e1 e2 mem b by (simp add: io_bind_def)
  with m2 k1 k2 a2 p1 mem b show ?case
    by (intro exI [of _ t2]) auto
qed

lemma file_items_iff: "(f, b) \<in> set (file_items es) \<longleftrightarrow> (f, File b) \<in> set es"
  by (induction es) (auto simp: file_items_def split: node.splits)

lemma os_walk_sound:
  "wf_node n \<Longrightarrow> (d, dirs, files) \<in> set (os_walk dirpath n) \<Longrightarrow> (f, b) \<in> set files \<Longrightarrow>
   \<exists>rel. d = dirpath @ rel \<and> lookup n (rel @ [f]) = Some (File b)"
proof (induction dirpath n arbitrary: d dirs files rule: os_walk.induct)
  case (1 dirpath b)
  then show ?case by simp
next
  case (2 dirpath es)
  from "2.prems"(1) have dist: "distinct (map fst es)"
    and wfs: "\<And>c m. (c, m) \<in> set es \<Longrightarrow> wf_node m"
    by auto
  from "2.prems"(2) consider
      (here) "d = dirpath" "files = file_items es"
    | (below) c m where "(c, m) \<in> set es" "is_Dir m" "(d, dirs, files) \<in> set (os_walk (dirpath @ [c]) m)"
    by auto
  then show ?case
  proof cases
    case here
    with "2.prems"(3) have "(f, File b) \<in> set es"
      by (simp add: file_items_iff)
    with dist have "map_of es f = Some (File b)"
      by simp
    with here show ?thesis
      by (intro exI [of _ "[]"]) simp
  next
    case (below c m)
    have "(c, m) \<in> set (filter (\<lambda>(c, m). is_Dir m) es)"
      using below by simp
    from "2.IH" [OF this refl wfs [OF below(1)] below(3) "2.prems"(3)]
    obtain rel where rel: "d = (dirpath @ [c]) @ rel" "lookup m (rel @ [f]) = Some (File b)"
      by blast
    from dist below(1) have "map_of es c = Some m"
      by simp
    with rel show ?thesis
      by (intro exI [of _ "c # rel"]) simp
  qed
qed

lemma os_walk_complete:
  "lookup n (rel @ [f]) = Some (File b) \<Longrightarrow>
   \<exists>dirs files. (dirpath @ rel, dirs, files) \<in> set (os_walk dirpath n) \<and> (f, b) \<in> set files"
proof (induction rel arbitrary: n dirpath)
  case Nil
  then obtain es where n: "n = Dir es" and "map_of es f = Some (File b)"
    by (cases n) (auto split: option.splits)
  then have "(f, b) \<in> set (file_items es)"
    by (simp add: file_items_iff map_of_SomeD)
  with n show ?case by auto
next
  case (Cons c rel)
  then obtain es m where n: "n = Dir es" and m: "map_of es c = Some m"
    and l: "lookup m (rel @ [f]) = Some (File b)"
    by (cases n) (auto split: option.splits)
  from l have d: "is_Dir m"
    by (cases m) (auto simp: is_Dir_def lookup_File)
  from Cons.IH [OF l, of "dirpath @ [c]"]
  obtain dirs files where "(dirpath @ c # rel, dirs, files) \<in> set (os_walk (dirpath @ [c]) m)"
    "(f, b) \<in> set files"
    by auto
  moreover have "(c, m) \<in> set es"
    using m by (rule map_of_SomeD)
  ultimately show ?case
    using n d by (intro exI [of _ dirs] exI [of _ files]) force
qed

lemma create_tar_archive_Dir:
  "lookup tree src = Some (Dir es) \<Longrightarrow>
   (p, m) \<in> set (create_tar_archive tree src) \<longleftrightarrow>
     (\<exists>d dirs files f b. (d, dirs, files) \<in> set (os_walk src (Dir es)) \<and> (f, b) \<in> set files \<and>
        p = drop (length src) (d @ [f]) \<and> m = TFile b)"
  by (force simp: create_tar_archive_def simp del: os_walk.simps drop_append)

lemma create_tar_archive_sound:
  assumes "lookup tree src = Some n" and "wf_node n"
  shows "file_members (source_view n src) (create_tar_archive tree src)"
proof (cases n)
  case (File b)
  with assms show ?thesis
    by (simp add: file_members_def create_tar_archive_def source_view_def)
next
  case (Dir es)
  have "case m of TDir \<Rightarrow> False | TFile b \<Rightarrow> lookup (Dir es) p = Some (File b)"
    if "(p, m) \<in> set (create_tar_archive tree src)" for p m
  proof -
    from assms(1) Dir have l: "lookup tree src = Some (Dir es)" by simp
    from that obtain d dirs files f b
      where w: "(d, dirs, files) \<in> set (os_walk src (Dir es))" and f: "(f, b) \<in> set files"
        and p: "p = drop (length src) (d @ [f])" and m: "m = TFile b"
      unfolding create_tar_archive_Dir [OF l] by blast
    from os_walk_sound [OF _ w f] assms(2) Dir
    obtain rel where "d = src @ rel" "lookup (Dir es) (rel @ [f]) = Some (File b)"
      by blast
    with p m show ?thesis by simp
  qed
  then show ?thesis
    using Dir by (auto simp: file_members_def source_view_def list_all_iff)
qed

lemma create_tar_archive_complete:
  assumes "lookup tree src = Some n" and "lookup (source_view n src) p = Some (File b)"
  shows "(p, TFile b) \<in> set (create_tar_archive tree src)"
proof (cases n)
  case (File x)
  with assms(2) have "p = [path_name src] \<and> x = b"
    by (cases p) (auto simp: source_view_def lookup_File split: if_splits)
  with assms File show ?thesis
    by (simp add: create_tar_archive_def)
next
  case (Dir es)
  with assms(2) have "p \<noteq> []"
    by (auto simp: source_view_def)
  then obtain rel f where p: "p = rel @ [f]"
    by (cases p rule: rev_cases) auto
  from os_walk_complete [of "Dir es" rel f b src] assms(2) Dir p
  obtain dirs files where "(src @ rel, dirs, files) \<in> set (os_walk src (Dir es))" "(f, b) \<in> set files"
    by (auto simp: source_view_def)
  moreover from assms(1) Dir have l: "lookup tree src = Some (Dir es)" by simp
  moreover have "p = drop (length src) ((src @ rel) @ [f])"
    using p by simp
  ultimately show ?thesis
    unfolding create_tar_archive_Dir [OF l] by blast
qed

lemma decompress_loop_Ok:
  "zstd_unfeed L d (windows data offsets) = Ok (outs, d') \<Longrightarrow>
   decompress_loop L data offsets d acc w =
     (Ok (d', acc @ outs), emit (chunk_bars (length data) Unpacking offsets) w)"
proof (induction offsets arbitrary: d acc w outs)
  case Nil
  then show ?case
    by (simp add: windows_def chunk_bars_def io_return_def)
next
  case (Cons i rest)
  from Cons.prems obtain out d1 outs1
    where s: "zstd_decompress L d (take 8192 (drop i data)) = Ok (out, d1)"
      and r: "zstd_unfeed L d1 (windows data rest) = Ok (outs1, d')"
      and o: "outs = out @ outs1"
    by (auto simp: windows_def split: result.splits prod.splits)
  show ?case
    using Cons.IH [OF r] s o
    by (simp add: Let_def io_bind_def io_lift_def print_progress_eq chunk_bars_def)
qed

lemma io_read_bytes_File:
  "lookup (fs w) p = Some (File b) \<Longrightarrow> io_read_bytes p w = (Ok b, w)"
  by (simp add: io_read_bytes_def read_bytes_def)

lemma io_bind_return: "io_bind (io_return x) f w = f x w"
  by (simp add: io_bind_def io_return_def)

lemma io_bind_lift_Ok: "io_bind (io_lift (Ok x)) f w = f x w"
  by (simp add: io_bind_def io_lift_def)

lemma io_bind_lift_Raised: "io_bind (io_lift (Raised e)) f w = (Raised e, w)"
  by (simp add: io_bind_def io_lift_def)

lemma io_bind_progress:
  "tot \<le> 0 \<or> 0 \<le> cur \<and> cur \<le> tot \<Longrightarrow>
   io_bind (print_progress cur tot pfx) f w = f () (emit (bar cur tot pfx) w)"
  by (simp add: io_bind_def print_progress_eq)

lemma io_bind_print: "io_bind (print_out ev) f w = f () (emit [ev] w)"
  by (simp add: io_bind_def print_out_eq)

lemma io_bind_read:
  "lookup (fs w) p = Some (File b) \<Longrightarrow> io_bind (io_read_bytes p) f w = f b w"
  by (simp add: io_bind_def io_read_bytes_File)

lemma io_bind_assoc: "io_bind (io_bind m f) g w = io_bind m (\<lambda>x. io_bind (f x) g) w"
  by (simp add: io_bind_def split: prod.splits result.splits)

lemma io_when_eq: "io_when b m w = (if b then m w else (Ok (), w))"
  by (simp add: io_when_def io_return_def)

lemmas io_simps = io_bind_return io_bind_lift_Ok io_bind_lift_Raised io_bind_progress
  io_bind_print io_bind_assoc

lemma decompress_zstd_Ok:
  assumes "lookup (fs w) p = Some (File raw)" and "zstd_read L show_progress raw = Ok data"
  shows "decompress_zstd L p show_progress w =
           (Ok data, emit (unpack_bars (length raw) show_progress) w)"
proof (cases show_progress)
  case False
  with assms(2) obtain d where "zstd_decompress L (zstd_decompressor L) raw = Ok (data, d)"
    by (auto simp: zstd_read_def split: result.splits)
  with False show ?thesis
    by (simp add: decompress_zstd_def io_bind_read [OF assms(1)] io_simps io_return_def
        unpack_bars_def)
next
  case True
  with assms(2) obtain d
    where "zstd_unfeed L (zstd_decompressor L) (windows raw (py_range (length raw) 8192)) = Ok (data, d)"
    by (auto simp: zstd_read_def split: result.splits)
  from decompress_loop_Ok [OF this, of "[]"] True show ?thesis
    by (simp add: decompress_zstd_def io_bind_read [OF assms(1)] io_bind_Ok io_simps io_return_def
        unpack_bars_def)
qed

lemma decompress_bz2_Ok:
  assumes "lookup (fs w) p = Some (File raw)" and "bz2_decompress L raw = Ok data"
  shows "decompress_bz2 L p show_progress w =
           (Ok data,
            emit (if show_progress
                  then bar (int (length raw)) (int (length raw)) Unpacking @ [Newline]
                  else []) w)"
proof (cases show_progress)
  case True
  with assms(2) show ?thesis
    by (simp add: decompress_bz2_def io_bind_read [OF assms(1)] io_simps io_return_def)
next
  case False
  with assms(2) show ?thesis
    by (simp add: decompress_bz2_def io_bind_read [OF assms(1)] io_lift_def)
qed

lemma io_write_bytes_writable:
  assumes "writable (fs w) p"
  shows "\<exists>t. io_write_bytes p data w = (Ok (), w\<lparr>fs := t\<rparr>) \<and>
             lookup t p = Some (File data) \<and>
             (\<forall>q. \<not> prefix q p \<longrightarrow> lookup t q = lookup (fs w) q) \<and>
             (\<forall>q. strict_prefix q p \<longrightarrow> is_dir t q)"
proof -
  from assms have "\<exists>t. write_bytes (fs w) p data = Ok t"
    by (intro write_bytes_succeeds) (simp_all add: writable_def)
  then obtain t where t: "write_bytes (fs w) p data = Ok t" ..
  show ?thesis
    using t write_bytes_lookup_same [OF t] write_bytes_lookup_other [OF t] write_bytes_dirs [OF t]
    by (intro exI [of _ t]) (simp add: io_write_bytes_def)
qed

section \<open>What the archive operation writes\<close>

lemma compress_with_zstd_nf:
  "compress_with_zstd L data p show_progress w =
     io_write_bytes p (written L Zst data show_progress) (emit (pack_bars Zst (length data) show_progress) w)"
  by (simp add: compress_with_zstd_def Let_def zstd_frame_def zstd_written_def written_def
      pack_bars_def io_bind_Ok [OF compress_loop_eq] io_simps split: prod.splits)

lemma compress_with_bz2_nf:
  "compress_with_bz2 L data p show_progress w =
     io_write_bytes p (written L Bz2 data show_progress) (emit (pack_bars Bz2 (length data) show_progress) w)"
  by (simp add: compress_with_bz2_eq written_def pack_bars_def)

lemma io_bind_st_size:
  "lookup (fs w) p = Some (File b) \<Longrightarrow> io_bind (io_st_size p) f w = f (length b) w"
  by (simp add: io_bind_def io_st_size_def st_size_def)

lemma io_bind_build_tar:
  "io_bind (build_tar src progress) f w =
     f (create_tar_archive (fs w) src) (emit (tar_bars (count_files (fs w) src) progress) w)"
  by (simp add: io_bind_def build_tar_def Let_def io_return_def print_out_eq print_progress_eq
      tar_bars_def)

lemma io_bind_read_single:
  "lookup (fs w) src = Some (File data) \<Longrightarrow>
   io_bind (read_single src progress) f w = f data (emit (single_bars (length data) progress) w)"
  by (simp add: read_single_def io_simps io_bind_st_size io_bind_read io_when_def single_bars_def)

lemma archive_build_single:
  "lookup (fs w) src = Some (File data) \<Longrightarrow>
   archive_build L src dst progress Single c w =
     io_write_bytes dst (written L c data progress)
       (emit (single_bars (length data) progress @ pack_bars c (length data) progress) w)"
  by (cases c)
     (simp_all add: archive_build_def io_bind_read_single compress_with_zstd_nf compress_with_bz2_nf)

lemma archive_build_tar_zst:
  "archive_build L src dst progress Tar Zst w =
     io_write_bytes dst (written L Zst (tar_write L (create_tar_archive (fs w) src)) progress)
       (emit (tar_bars (count_files (fs w) src) progress
              @ pack_bars Zst (length (tar_write L (create_tar_archive (fs w) src))) progress) w)"
  by (simp add: archive_build_def io_bind_build_tar compress_with_zstd_nf Let_def)

lemma tar_bz2_write_emit:
  "tar_bz2_write L src dst (emit evs w) =
     (fst (tar_bz2_write L src dst w), emit evs (snd (tar_bz2_write L src dst w)))"
  by (simp add: tar_bz2_write_def io_bind_def io_write_bytes_def io_lift_def Let_def
      split: result.splits option.splits)

lemma tar_bz2_write_out:
  "stdout (snd (tar_bz2_write L src dst w)) = stdout w \<and>
   stderr (snd (tar_bz2_write L src dst w)) = stderr w"
  by (simp add: tar_bz2_write_def io_bind_def io_write_bytes_def io_lift_def Let_def
      split: result.splits option.splits)

lemma archive_build_tar_bz2:
  "archive_build L src dst progress Tar Bz2 w =
     (case tar_bz2_write L src dst w of
        (Raised e, w1) \<Rightarrow>
          (Raised e, emit (tar_bars (count_files (fs w) src) progress @ bz2_bars progress False) w1)
      | (Ok u, w1) \<Rightarrow>
          (Ok (), emit (tar_bars (count_files (fs w) src) progress @ bz2_bars progress True) w1))"
  by (cases "tar_bz2_write L src dst w")
     (auto simp: archive_build_def io_bind_build_tar io_simps tar_bz2_write_emit Let_def
        io_bind_def [of "tar_bz2_write L src dst"] bz2_bars_def print_out_eq
        split: result.splits)

lemma source_size_returns: "\<exists>n. source_size src w = (Ok n, w)"
  by (auto simp: source_size_def io_st_size_def st_size_def io_return_def is_file_def
      split: option.splits node.splits)

lemma archive_report_returns:
  "\<exists>r ms. archive_report src dst benchmark w = (Ok r, emit (map Message ms) w)"
proof (cases "exists (fs w) dst")
  case False
  then show ?thesis
    by (intro exI [of _ NoResult] exI [of _ "[]"]) (simp add: archive_report_def io_return_def)
next
  case True
  then have "\<exists>n. io_st_size dst w = (Ok n, w)"
    by (auto simp: exists_def io_st_size_def st_size_def split: option.splits node.splits)
  then obtain n where n: "io_st_size dst w = (Ok n, w)" ..
  obtain k where k: "source_size src w = (Ok k, w)"
    using source_size_returns by blast
  have bn: "io_bind (io_st_size dst) f w = f n w" for f :: "nat \<Rightarrow> retval io"
    using n by (simp add: io_bind_def)
  have bk: "io_bind (source_size src) f w = f k w" for f :: "nat \<Rightarrow> retval io"
    using k by (simp add: io_bind_def)
  show ?thesis
  proof (cases benchmark)
    case True
    with \<open>exists (fs w) dst\<close> n k show ?thesis
      by (intro exI [of _ Elapsed] exI [of _ "[ArchiveBenchmark k n]"])
         (simp add: archive_report_def bn bk io_simps io_return_def)
  next
    case False
    with \<open>exists (fs w) dst\<close> n show ?thesis
      by (intro exI [of _ NoResult] exI [of _ "[ArchiveCreated dst n]"])
         (simp add: archive_report_def bn io_simps io_return_def)
  qed
qed

lemma io_write_bytes_out:
  "stdout (snd (io_write_bytes p data w)) = stdout w \<and> stderr (snd (io_write_bytes p data w)) = stderr w"
  by (simp add: io_write_bytes_def split: result.splits)

lemma archive_valid:
  "exists (fs w) src \<Longrightarrow> archive_format dst = Inr (t, c) \<Longrightarrow> \<not> (is_dir (fs w) src \<and> t \<noteq> Tar) \<Longrightarrow>
   archive L src dst progress benchmark w =
     try_except
       (io_bind (archive_build L src dst progress t c) (\<lambda>_. archive_report src dst benchmark))
       ArchiveFailed w"
  by (auto simp: archive_def)

lemma try_except_Ok:
  assumes "build w = (Ok (), w1)"
  shows "\<exists>r ms. try_except (io_bind build (\<lambda>_. archive_report src dst benchmark)) handler w =
                  (Ok r, emit (map Message ms) w1)"
proof -
  obtain r ms where "archive_report src dst benchmark w1 = (Ok r, emit (map Message ms) w1)"
    using archive_report_returns by blast
  with assms show ?thesis
    by (intro exI [of _ r] exI [of _ ms]) (simp add: try_except_def io_bind_def)
qed

lemma try_except_Raised:
  "build w = (Raised e, w1) \<Longrightarrow>
   try_except (io_bind build f) handler w = (Ok NoResult, w1\<lparr>stderr := stderr w1 @ [handler e]\<rparr>)"
  by (simp add: try_except_def io_bind_def print_err_def io_return_def)

lemma writable_emit [simp]: "writable (fs (emit evs w)) p = writable (fs w) p"
  by simp

lemma file_not_prefix_of_writable:
  assumes "lookup tree src = Some (File b)" and "writable tree dst" and "src \<noteq> dst"
  shows "\<not> prefix src dst"
proof
  assume "prefix src dst"
  with assms(3) have "strict_prefix src dst"
    by (simp add: strict_prefix_def)
  moreover from assms(2) have "dst \<noteq> []" "is_dir tree (butlast dst)"
    by (simp_all add: writable_def)
  ultimately have "is_dir tree src"
    using is_dir_prefix prefix_butlast by blast
  with assms(1) show False
    by (simp add: is_dir_def)
qed

lemma tar_bz2_write_file:
  assumes src: "lookup (fs w) src = Some (File data)" and wr: "writable (fs w) dst"
    and ne: "src \<noteq> dst"
  shows "\<exists>tr. tar_bz2_write L src dst w = (Ok (), w\<lparr>fs := tr\<rparr>) \<and>
           lookup tr dst = Some (File (bz2_compress L (tar_write L [([path_name src], TFile data)]))) \<and>
           (\<forall>q. \<not> prefix q dst \<longrightarrow> lookup tr q = lookup (fs w) q) \<and>
           (\<forall>q. strict_prefix q dst \<longrightarrow> is_dir tr q)"
proof -
  from io_write_bytes_writable [OF wr, of "[]"]
  obtain t1 where w1: "io_write_bytes dst [] w = (Ok (), w\<lparr>fs := t1\<rparr>)"
    and l1: "lookup t1 dst = Some (File [])"
    and o1: "\<And>q. \<not> prefix q dst \<Longrightarrow> lookup t1 q = lookup (fs w) q"
    and d1: "\<And>q. strict_prefix q dst \<Longrightarrow> is_dir t1 q"
    by blast
  have np: "\<not> prefix src dst"
    using src wr ne by (rule file_not_prefix_of_writable)
  have s1: "lookup t1 src = Some (File data)"
    using o1 [OF np] src by simp
  from wr have dne: "dst \<noteq> []"
    by (simp add: writable_def)
  have "writable (fs (w\<lparr>fs := t1\<rparr>)) dst"
    using dne d1 [of "butlast dst"] l1 prefix_butlast [OF dne, of "butlast dst"]
    by (simp add: writable_def is_dir_def)
  from io_write_bytes_writable [OF this, of "bz2_compress L (tar_write L [([path_name src], TFile data)])"]
  obtain t2 where w2: "io_write_bytes dst (bz2_compress L (tar_write L [([path_name src], TFile data)]))
        (w\<lparr>fs := t1\<rparr>) = (Ok (), w\<lparr>fs := t2\<rparr>)"
    and l2: "lookup t2 dst = Some (File (bz2_compress L (tar_write L [([path_name src], TFile data)])))"
    and o2: "\<And>q. \<not> prefix q dst \<Longrightarrow> lookup t2 q = lookup t1 q"
    and d2: "\<And>q. strict_prefix q dst \<Longrightarrow> is_dir t2 q"
    by auto
  have "tar_bz2_write L src dst w = (Ok (), w\<lparr>fs := t2\<rparr>)"
    using w1 w2 s1 ne by (simp add: tar_bz2_write_def io_bind_def is_file_def)
  with l2 o1 o2 d2 show ?thesis
    by (intro exI [of _ t2]) simp
qed

lemma archive_build_writes:
  assumes src: "lookup (fs w) src = Some n"
    and ok: "t = Single \<longrightarrow> \<not> is_Dir n"
    and nb: "t = Tar \<and> c = Bz2 \<longrightarrow> \<not> is_Dir n \<and> src \<noteq> dst"
    and wr: "writable (fs w) dst"
  shows "\<exists>tr evs. archive_build L src dst progress t c w = (Ok (), (emit evs w)\<lparr>fs := tr\<rparr>) \<and>
           lookup tr dst = Some (File (written L c (archive_payload L (fs w) src t) progress)) \<and>
           (\<forall>q. \<not> prefix q dst \<longrightarrow> lookup tr q = lookup (fs w) q) \<and>
           (\<forall>q. strict_prefix q dst \<longrightarrow> is_dir tr q)"
proof -
  have wr': "writable (fs (emit evs w)) dst" for evs
    using wr by simp
  consider (single) "t = Single" | (tz) "t = Tar" "c = Zst" | (tb) "t = Tar" "c = Bz2"
    by (cases t; cases c) auto
  then show ?thesis
  proof cases
    case single
    with ok obtain data where n: "n = File data"
      by (cases n) (auto simp: is_Dir_def)
    with src have l: "lookup (fs w) src = Some (File data)" by simp
    let ?E = "single_bars (length data) progress @ pack_bars c (length data) progress"
    from io_write_bytes_writable [OF wr' [of ?E], of "written L c data progress"]
    show ?thesis
      using single l
      by (auto simp: archive_build_single [OF l] archive_payload_def)
  next
    case tz
    let ?X = "tar_write L (create_tar_archive (fs w) src)"
    let ?E = "tar_bars (count_files (fs w) src) progress @ pack_bars Zst (length ?X) progress"
    from io_write_bytes_writable [OF wr' [of ?E], of "written L Zst ?X progress"]
    show ?thesis
      using tz
      by (auto simp: archive_build_tar_zst archive_payload_def)
  next
    case tb
    with nb obtain data where n: "n = File data" and ne: "src \<noteq> dst"
      by (cases n) (auto simp: is_Dir_def)
    with src have l: "lookup (fs w) src = Some (File data)" by simp
    from tar_bz2_write_file [OF l wr ne, of L]
    obtain tr where "tar_bz2_write L src dst w = (Ok (), w\<lparr>fs := tr\<rparr>)"
      and "lookup tr dst = Some (File (bz2_compress L (tar_write L [([path_name src], TFile data)])))"
      and "\<And>q. \<not> prefix q dst \<Longrightarrow> lookup tr q = lookup (fs w) q"
      and "\<And>q. strict_prefix q dst \<Longrightarrow> is_dir tr q"
      by blast
    then show ?thesis
      using tb l
      by (intro exI [of _ tr]
            exI [of _ "tar_bars (count_files (fs w) src) progress @ bz2_bars progress True"])
         (simp add: archive_build_tar_bz2 archive_payload_def create_tar_archive_def written_def)
  qed
qed

lemma archive_writes:
  assumes src: "lookup (fs w) src = Some n" and fmt: "archive_format dst = Inr (t, c)"
    and ok: "t = Single \<longrightarrow> \<not> is_Dir n"
    and nb: "t = Tar \<and> c = Bz2 \<longrightarrow> \<not> is_Dir n \<and> src \<noteq> dst"
    and wr: "writable (fs w) dst"
  shows "\<exists>r w1. archive L src dst progress benchmark w = (Ok r, w1) \<and> stderr w1 = stderr w \<and>
           lookup (fs w1) dst =
             Some (File (written L c (archive_payload L (fs w) src t) progress)) \<and>
           (\<forall>q. \<not> prefix q dst \<longrightarrow> lookup (fs w1) q = lookup (fs w) q) \<and>
           (\<forall>q. strict_prefix q dst \<longrightarrow> is_dir (fs w1) q)"
proof -
  have ex: "exists (fs w) src"
    using src by (simp add: exists_def)
  have nd: "\<not> (is_dir (fs w) src \<and> t \<noteq> Tar)"
    using src ok by (cases t; cases n) (auto simp: is_dir_def is_Dir_def)
  from archive_build_writes [OF src ok nb wr, of L progress]
  obtain tr evs where b: "archive_build L src dst progress t c w = (Ok (), (emit evs w)\<lparr>fs := tr\<rparr>)"
    and l: "lookup tr dst = Some (File (written L c (archive_payload L (fs w) src t) progress))"
    and o: "\<And>q. \<not> prefix q dst \<Longrightarrow> lookup tr q = lookup (fs w) q"
    and d: "\<And>q. strict_prefix q dst \<Longrightarrow> is_dir tr q"
    by blast
  from try_except_Ok [of "archive_build L src dst progress t c" w _ src dst benchmark ArchiveFailed,
      OF b]
  obtain r ms where "archive L src dst progress benchmark w =
      (Ok r, emit (map Message ms) ((emit evs w)\<lparr>fs := tr\<rparr>))"
    unfolding archive_valid [OF ex fmt nd] by blast
  with l o d show ?thesis
    by (intro exI [of _ r] exI [of _ "emit (map Message ms) ((emit evs w)\<lparr>fs := tr\<rparr>)"]) simp
qed

section \<open>What the extract operation unpacks\<close>

lemma extract_member_emit:
  "extract_member dest mem (emit evs w) =
     (fst (extract_member dest mem w), emit evs (snd (extract_member dest mem w)))"
  by (cases mem)
     (simp add: extract_member_def io_bind_def io_return_def io_mkdir_def io_write_bytes_def
        split: result.splits member.splits)

lemma extract_member_out:
  "stdout (snd (extract_member dest mem w)) = stdout w \<and>
   stderr (snd (extract_member dest mem w)) = stderr w"
  by (cases mem)
     (simp add: extract_member_def io_bind_def io_return_def io_mkdir_def io_write_bytes_def
        split: result.splits member.splits)

lemma extractall_emit:
  "extractall dest ms (emit evs w) =
     (fst (extractall dest ms w), emit evs (snd (extractall dest ms w)))"
proof (induction ms arbitrary: w)
  case Nil
  then show ?case by (simp add: io_return_def)
next
  case (Cons mem ms)
  show ?case
    by (cases "extract_member dest mem w")
       (simp add: io_bind_def extract_member_emit Cons.IH split: result.splits)
qed

lemma loop_bars_Suc: "loop_bars rb i (Suc n) = rb i @ loop_bars rb (Suc i) n"
  by (simp add: loop_bars_def upt_rec)

lemma loop_bars_0 [simp]: "loop_bars rb i 0 = []"
  by (simp add: loop_bars_def)

lemma extract_loop_extractall:
  assumes ex: "extractall dest ms w = (Ok (), w')"
    and rep: "\<And>k w. i \<le> k \<Longrightarrow> k < i + length ms \<Longrightarrow> report k w = (Ok (), emit (rb k) w)"
  shows "extract_loop dest report i ms w = (Ok (), emit (loop_bars rb i (length ms)) w')"
  using ex rep
proof (induction ms arbitrary: w w' i)
  case Nil
  then show ?case by (simp add: io_return_def)
next
  case (Cons mem ms)
  from Cons.prems(1) obtain w1 where m: "extract_member dest mem w = (Ok (), w1)"
    and r: "extractall dest ms w1 = (Ok (), w')"
    by (cases "extract_member dest mem w") (auto simp: io_bind_def split: result.splits)
  have x: "extractall dest ms (emit (rb i) w1) = (Ok (), emit (rb i) w')"
    using r by (simp add: extractall_emit)
  have h: "report i w1 = (Ok (), emit (rb i) w1)"
    by (rule Cons.prems(2)) simp_all
  have t: "report k v = (Ok (), emit (rb k) v)" if "Suc i \<le> k" "k < Suc i + length ms" for k v
    using that by (intro Cons.prems(2)) simp_all
  from Cons.IH [OF x t] show ?case
    using m h by (simp add: io_bind_def loop_bars_Suc)
qed

lemma extract_valid:
  "exists (fs w) archive_path \<Longrightarrow> extract_format archive_path = Inr (t, c) \<Longrightarrow>
   extract_archive L archive_path dest_dir progress benchmark w =
     io_bind (io_mkdir dest_dir) (\<lambda>_.
       try_except
         (io_bind (extract_unpack L archive_path dest_dir progress t c)
            (\<lambda>_. extract_report dest_dir benchmark))
         ExtractFailed) w"
  by (simp add: extract_archive_def)

lemma extract_report_returns:
  "\<exists>r m. extract_report dest_dir benchmark w = (Ok r, emit [Message m] w)"
  by (cases benchmark) (auto simp: extract_report_def io_simps io_return_def)

lemma try_extract_Ok:
  assumes "unpack w = (Ok (), w1)"
  shows "\<exists>r m. try_except (io_bind unpack (\<lambda>_. extract_report dest_dir benchmark)) handler w =
                 (Ok r, emit [Message m] w1)"
proof -
  obtain r m where "extract_report dest_dir benchmark w1 = (Ok r, emit [Message m] w1)"
    using extract_report_returns by blast
  with assms show ?thesis
    by (intro exI [of _ r] exI [of _ m]) (simp add: try_except_def io_bind_def)
qed

lemma io_mkdir_fresh:
  assumes "fresh (fs w) dest"
  shows "\<exists>t. io_mkdir dest w = (Ok (), w\<lparr>fs := t\<rparr>) \<and> is_dir t dest \<and>
             (\<forall>q. \<not> prefix q dest \<longrightarrow> lookup t q = lookup (fs w) q) \<and>
             (\<forall>r. r \<noteq> [] \<longrightarrow> lookup t (dest @ r) = None)"
proof -
  from assms have nf: "\<And>q. prefix q dest \<Longrightarrow> \<not> is_file (fs w) q"
    and ne: "lookup (fs w) dest = None"
    by (auto simp: fresh_def list_all_iff exists_def split: option.splits)
  from mkdir_succeeds [of dest "fs w"] nf obtain t where t: "mkdir (fs w) dest = Ok t"
    by blast
  have "lookup t (dest @ r) = None" if "r \<noteq> []" for r
    using mkdir_lookup_other [OF t, of "dest @ r"] that ne by (simp add: lookup_append)
  then show ?thesis
    using t mkdir_is_dir [OF t, of dest] mkdir_lookup_other [OF t]
    by (intro exI [of _ t]) (simp add: io_mkdir_def)
qed

lemma io_bind_decompress:
  assumes "lookup (fs w) p = Some (File raw)" and "decoded L c show_progress raw = Ok data"
  shows "io_bind (if c = Zst then decompress_zstd L p show_progress
                  else decompress_bz2 L p show_progress) f w =
           f data (emit (decode_bars c (length raw) show_progress) w)"
proof (cases c)
  case Zst
  with assms(2) have "zstd_read L show_progress raw = Ok data"
    by (simp add: decoded_def)
  from decompress_zstd_Ok [OF assms(1) this] Zst show ?thesis
    by (simp add: io_bind_def decode_bars_def)
next
  case Bz2
  with assms(2) have "bz2_decompress L raw = Ok data"
    by (simp add: decoded_def)
  from decompress_bz2_Ok [OF assms(1) this, of show_progress] Bz2 show ?thesis
    by (simp add: io_bind_def decode_bars_def)
qed

lemma io_bind_write:
  "write_bytes (fs w) p d = Ok t \<Longrightarrow> io_bind (io_write_bytes p d) f w = f () (w\<lparr>fs := t\<rparr>)"
  by (simp add: io_bind_def io_write_bytes_def)

lemma fresh_not_prefix:
  assumes "fresh tree dest" and "lookup tree ap = Some (File z)"
  shows "\<not> prefix ap dest"
proof
  assume "prefix ap dest"
  then have "ap \<in> set (prefixes dest)"
    by (simp add: in_set_prefixes)
  with assms(1) have "\<not> is_file tree ap"
    by (simp add: fresh_def list_all_iff)
  with assms(2) show False
    by (simp add: is_file_def)
qed

lemma extract_raw:
  assumes a: "lookup (fs w) ap = Some (File raw)"
    and fmt: "extract_format ap = Inr (Single, c)"
    and inv: "decoded L c progress raw = Ok data"
    and fr: "fresh (fs w) dest"
  shows "\<exists>r w2. extract_archive L ap dest progress benchmark w = (Ok r, w2) \<and>
           stderr w2 = stderr w \<and>
           lookup (fs w2) (dest @ [stem ap]) = Some (File data) \<and>
           (\<forall>r. r \<noteq> [] \<and> r \<noteq> [stem ap] \<longrightarrow> lookup (fs w2) (dest @ r) = None)"
proof -
  have ex: "exists (fs w) ap"
    using a by (simp add: exists_def)
  from io_mkdir_fresh [OF fr]
  obtain t where mk: "io_mkdir dest w = (Ok (), w\<lparr>fs := t\<rparr>)" and dd: "is_dir t dest"
    and ot: "\<And>q. \<not> prefix q dest \<Longrightarrow> lookup t q = lookup (fs w) q"
    and em: "\<And>r. r \<noteq> [] \<Longrightarrow> lookup t (dest @ r) = None"
    by blast
  have la: "lookup t ap = Some (File raw)"
    using ot [OF fresh_not_prefix [OF fr a]] a by simp
  have "\<exists>t2. write_bytes t (dest @ [stem ap]) data = Ok t2"
    using dd em [of "[stem ap]"] by (intro write_bytes_succeeds) (simp_all add: is_dir_def)
  then obtain t2 where t2: "write_bytes t (dest @ [stem ap]) data = Ok t2" ..
  let ?E = "(if progress then bar 0 1 Unpacking else [])
            @ decode_bars c (length raw) progress
            @ (if progress then bar 1 1 Unpacking @ [Newline] else [])"
  have un: "extract_unpack L ap dest progress Single c (w\<lparr>fs := t\<rparr>) =
              (Ok (), (emit ?E w)\<lparr>fs := t2\<rparr>)"
    using la inv t2
    by (cases progress)
       (simp_all add: extract_unpack_def io_when_def io_simps io_bind_decompress io_bind_write
          Let_def print_out_eq print_progress_eq io_return_def)
  from try_extract_Ok [of "extract_unpack L ap dest progress Single c" "w\<lparr>fs := t\<rparr>" _ dest benchmark
      ExtractFailed, OF un]
  obtain r m where "extract_archive L ap dest progress benchmark w =
      (Ok r, emit [Message m] ((emit ?E w)\<lparr>fs := t2\<rparr>))"
    unfolding extract_valid [OF ex fmt] io_bind_def mk by auto
  moreover have "lookup t2 (dest @ r) = None" if "r \<noteq> []" "r \<noteq> [stem ap]" for r
  proof -
    from that have "\<not> prefix (dest @ r) (dest @ [stem ap])"
      by (cases r) auto
    then have "lookup t2 (dest @ r) = lookup t (dest @ r)"
      by (rule write_bytes_lookup_other [OF t2])
    with em [OF that(1)] show ?thesis by simp
  qed
  ultimately show ?thesis
    using write_bytes_lookup_same [OF t2]
    by (intro exI [of _ r] exI [of _ "emit [Message m] ((emit ?E w)\<lparr>fs := t2\<rparr>)"]) simp
qed

lemma extract_tar:
  assumes a: "lookup (fs w) ap = Some (File raw)"
    and fmt: "extract_format ap = Inr (Tar, c)"
    and inv: "decoded L c progress raw = Ok stream"
    and tr: "tar_read L stream = Ok ms"
    and fr: "fresh (fs w) dest"
    and fm: "file_members S ms"
    and sd: "is_Dir S"
  shows "\<exists>r w2. extract_archive L ap dest progress benchmark w = (Ok r, w2) \<and>
           stderr w2 = stderr w \<and>
           (\<forall>p b. (p, TFile b) \<in> set ms \<longrightarrow> lookup (fs w2) (dest @ p) = Some (File b))"
proof -
  have ex: "exists (fs w) ap"
    using a by (simp add: exists_def)
  from io_mkdir_fresh [OF fr]
  obtain t where mk: "io_mkdir dest w = (Ok (), w\<lparr>fs := t\<rparr>)" and dd: "is_dir t dest"
    and ot: "\<And>q. \<not> prefix q dest \<Longrightarrow> lookup t q = lookup (fs w) q"
    and em: "\<And>r. r \<noteq> [] \<Longrightarrow> lookup t (dest @ r) = None"
    by blast
  have la: "lookup t ap = Some (File raw)"
    using ot [OF fresh_not_prefix [OF fr a]] a by simp
  have mi: "mirrors t dest S"
    unfolding mirrors_def
  proof (intro conjI allI impI)
    show "is_dir t dest" by (rule dd)
  next
    fix r b assume "lookup t (dest @ r) = Some (File b)"
    with dd em [of r] show "lookup S r = Some (File b)"
      by (cases "r = []") (simp_all add: is_dir_def)
  next
    fix r assume "is_dir t (dest @ r)"
    with em [of r] sd show "is_dir S r"
      by (cases "r = []"; cases S) (simp_all add: is_dir_def is_Dir_def)
  qed
  let ?n = "length ms"
  let ?E0 = "(if progress then bar 0 1 (if c = Bz2 then Unpacking else UnpackingZstd) else [])
             @ (if c = Zst then decode_bars Zst (length raw) progress
                  @ (if progress then bar 1 2 UnpackingTar else [])
                else [])"
  let ?rb = "\<lambda>i. if c = Bz2 then bar (int i + 1) (int ?n) Unpacking
                  else bar (int i + 1 + int ?n) (int ?n * 2) UnpackingTar"
  let ?E1 = "if progress then loop_bars ?rb 0 ?n @ [Newline] else []"
  have "mirrors (fs ((emit ?E0 w)\<lparr>fs := t\<rparr>)) dest S"
    using mi by simp
  from extractall_mirrors [OF this fm]
  obtain t2 where xa: "extractall dest ms ((emit ?E0 w)\<lparr>fs := t\<rparr>) = (Ok (), (emit ?E0 w)\<lparr>fs := t2\<rparr>)"
    and at: "\<And>p b. (p, TFile b) \<in> set ms \<Longrightarrow> lookup t2 (dest @ p) = Some (File b)"
    by auto
  have xb: "extract_loop dest (\<lambda>i. print_progress (int i + 1) (int ?n) Unpacking) 0 ms
              ((emit ?E0 w)\<lparr>fs := t\<rparr>) =
              (Ok (), emit (loop_bars (\<lambda>i. bar (int i + 1) (int ?n) Unpacking) 0 ?n)
                        ((emit ?E0 w)\<lparr>fs := t2\<rparr>))"
    by (rule extract_loop_extractall [OF xa]) (simp add: print_progress_eq)
  have xz: "extract_loop dest
              (\<lambda>i. print_progress (int i + 1 + int ?n) (int ?n * 2) UnpackingTar) 0 ms
              ((emit ?E0 w)\<lparr>fs := t\<rparr>) =
              (Ok (), emit (loop_bars (\<lambda>i. bar (int i + 1 + int ?n) (int ?n * 2) UnpackingTar) 0 ?n)
                        ((emit ?E0 w)\<lparr>fs := t2\<rparr>))"
    by (rule extract_loop_extractall [OF xa]) (simp add: print_progress_eq)
  have un: "extract_unpack L ap dest progress Tar c (w\<lparr>fs := t\<rparr>) =
              (Ok (), (emit (?E0 @ ?E1) w)\<lparr>fs := t2\<rparr>)"
  proof (cases c)
    case Bz2
    with inv have bi: "bz2_decompress L raw = Ok stream"
      by (simp add: decoded_def)
    show ?thesis
      using Bz2 bi tr xa xb
      by (cases progress)
         (simp_all add: extract_unpack_def io_when_def io_simps io_bind_read la
            io_bind_Ok print_out_eq)
  next
    case Zst
    with inv have iz: "decoded L Zst progress raw = Ok stream"
      by simp
    have dz: "io_bind (decompress_zstd L ap sp) f w' =
                f stream (emit (decode_bars Zst (length raw) sp) w')"
      if "fs w' = t" "sp = progress" for f :: "bytes \<Rightarrow> unit io" and w' sp
      using io_bind_decompress [of w' ap raw L Zst progress stream, OF _ iz, of f] la that
      by simp
    show ?thesis
      using Zst tr xa xz
      by (cases progress)
         (simp_all add: extract_unpack_def io_when_def io_simps dz io_bind_Ok print_out_eq)
  qed
  from try_extract_Ok [of "extract_unpack L ap dest progress Tar c" "w\<lparr>fs := t\<rparr>" _ dest benchmark
      ExtractFailed, OF un]
  obtain r m where "extract_archive L ap dest progress benchmark w =
      (Ok r, emit [Message m] ((emit (?E0 @ ?E1) w)\<lparr>fs := t2\<rparr>))"
    unfolding extract_valid [OF ex fmt] io_bind_def mk by auto
  then show ?thesis
    using at
    by (intro exI [of _ r] exI [of _ "emit [Message m] ((emit (?E0 @ ?E1) w)\<lparr>fs := t2\<rparr>)"]) simp
qed

section \<open>Round trip\<close>

text \<open>
  C1, as amended. Take a source (a file, or a directory tree whose listings have no
  repeated name), a destination that can be written, and libraries that read back what
  they wrote for this source: the decoder, called as \<^verbatim>\<open>extract\<close> calls it, returns the
  data from the bytes that \<^verbatim>\<open>archive\<close> wrote for it, and, for the tar formats, the tar
  reader returns the members that the tar writer was given. Archive the source, then
  extract the archive into a directory that does not exist yet. Both operations succeed
  and report no error, and:
  \<^item> for \<^verbatim>\<open>.zst\<close> and \<^verbatim>\<open>.bz2\<close> (a single file), the destination directory holds exactly
    one entry: a file with the bytes of the source, named by the stem of the archive's
    name, not by the name of the source;
  \<^item> for \<^verbatim>\<open>.tar.zst\<close> (any source) and \<^verbatim>\<open>.tar.bz2\<close> (a single file), every file of the
    source is in the destination directory with the same bytes and at the same path
    relative to the source (a single file under its base name).
  The \<^verbatim>\<open>.tar.bz2\<close> archive of a directory is not covered here.
\<close>

theorem archive_extract_roundtrip:
  assumes src: "lookup (fs w) src = Some n"
    and wf: "wf_node n"
    and fmt: "archive_format dst = Inr (t, c)"
    and single: "t = Single \<longrightarrow> \<not> is_Dir n"
    and bz2: "t = Tar \<and> c = Bz2 \<longrightarrow> \<not> is_Dir n \<and> src \<noteq> dst"
    and wr: "writable (fs w) dst"
    and codec: "reads_back L c pa pe (archive_payload L (fs w) src t)"
    and tar: "t = Tar \<longrightarrow>
                tar_read L (tar_write L (create_tar_archive (fs w) src)) =
                  Ok (create_tar_archive (fs w) src)"
    and fr: "fresh (fs (snd (archive L src dst pa ba w))) dest"
  shows "\<exists>ra w1 re w2.
           archive L src dst pa ba w = (Ok ra, w1) \<and>
           extract_archive L dst dest pe be w1 = (Ok re, w2) \<and>
           stderr w2 = stderr w \<and>
           (t = Single \<longrightarrow>
              (\<exists>b. n = File b \<and> lookup (fs w2) (dest @ [stem dst]) = Some (File b)) \<and>
              (\<forall>r. r \<noteq> [] \<and> r \<noteq> [stem dst] \<longrightarrow> lookup (fs w2) (dest @ r) = None)) \<and>
           (t = Tar \<longrightarrow>
              (\<forall>p b. lookup (source_view n src) p = Some (File b) \<longrightarrow>
                     lookup (fs w2) (dest @ p) = Some (File b)))"
proof -
  let ?x = "archive_payload L (fs w) src t"
  from archive_writes [OF src fmt single bz2 wr, of L pa ba]
  obtain ra w1 where ar: "archive L src dst pa ba w = (Ok ra, w1)"
    and e1: "stderr w1 = stderr w"
    and l1: "lookup (fs w1) dst = Some (File (written L c ?x pa))"
    by blast
  from codec have dec: "decoded L c pe (written L c ?x pa) = Ok ?x"
    by (simp add: reads_back_def)
  from fr ar have fr1: "fresh (fs w1) dest"
    by simp
  have xf: "extract_format dst = Inr (t, c)"
    using fmt by (simp add: extract_format_def archive_format_def)
  show ?thesis
  proof (cases t)
    case Single
    with single obtain data where n: "n = File data"
      by (cases n) (auto simp: is_Dir_def)
    with src Single have p: "?x = data"
      by (simp add: archive_payload_def)
    from extract_raw [OF l1 xf [unfolded Single] dec fr1, of be]
    show ?thesis
      using ar e1 n Single p by auto
  next
    case Tar
    let ?ms = "create_tar_archive (fs w) src"
    from Tar have p: "?x = tar_write L ?ms"
      by (simp add: archive_payload_def)
    have fm: "file_members (source_view n src) ?ms"
      using src wf by (rule create_tar_archive_sound)
    have sd: "is_Dir (source_view n src)"
      by (cases n) (simp_all add: source_view_def is_Dir_def)
    from tar Tar p have tr: "tar_read L ?x = Ok ?ms"
      by simp
    from extract_tar [OF l1 xf [unfolded Tar] dec tr fr1 fm sd, of be]
    obtain re w2 where "extract_archive L dst dest pe be w1 = (Ok re, w2)"
      and "stderr w2 = stderr w1"
      and "\<And>p b. (p, TFile b) \<in> set ?ms \<Longrightarrow> lookup (fs w2) (dest @ p) = Some (File b)"
      by blast
    then show ?thesis
      using ar e1 Tar create_tar_archive_complete [OF src] by auto
  qed
qed

lemma toy_frame: "zstd_frame toy_ext x = x"
  by (simp add: zstd_frame_def toy_ext_def)

lemma toy_feed: "zstd_feed toy_ext c chunks = (concat chunks, c + length (concat chunks))"
  by (induction chunks arbitrary: c) (simp_all add: toy_ext_def)

lemma toy_written: "written toy_ext c x p = (case c of Zst \<Rightarrow> x | Bz2 \<Rightarrow> rev x)"
proof (cases c)
  case Zst
  have "zstd_flush toy_ext k = []" for k
    by (simp add: toy_ext_def)
  with Zst show ?thesis
    by (simp add: written_def zstd_written_def toy_frame toy_feed windows_concat)
next
  case Bz2
  then show ?thesis
    by (simp add: written_def toy_ext_def)
qed

lemma toy_unfeed: "zstd_unfeed toy_ext d chunks = Ok (concat chunks, d)"
  by (induction chunks) (simp_all add: toy_ext_def)

lemma toy_decoded: "decoded toy_ext c p raw = Ok (case c of Zst \<Rightarrow> raw | Bz2 \<Rightarrow> rev raw)"
proof (cases c)
  case Zst
  have "zstd_decompress toy_ext d raw = Ok (raw, d)" for d
    by (simp add: toy_ext_def)
  with Zst show ?thesis
    by (simp add: decoded_def zstd_read_def toy_unfeed windows_concat)
next
  case Bz2
  then show ?thesis
    by (simp add: decoded_def toy_ext_def)
qed

lemma toy_reads_back: "reads_back toy_ext c pa pe x"
  by (cases c) (simp_all add: reads_back_def toy_written toy_decoded)

lemma toy_tar: "tar_read toy_ext (tar_write toy_ext ms) = Ok ms"
  by (simp add: toy_ext_def toy_tar_roundtrip)

text \<open>
  The second instance reads back what it writes too, although its two ways of writing the
  empty input differ: both frames carry nine bytes before the stored data.
\<close>

lemma stored_feed:
  "zstd_feed stored_ext (called, kept) chunks =
     ([], (called \<or> chunks \<noteq> [], kept @ concat chunks))"
  by (induction chunks arbitrary: called kept) (simp_all add: stored_ext_def)

lemma stored_flush: "\<exists>h. length h = 9 \<and> zstd_flush stored_ext (called, kept) = h @ kept"
  by (simp add: stored_ext_def block_header_def)

lemma stored_written: "\<exists>h. length h = 9 \<and> written stored_ext Zst x p = h @ x"
proof (cases p)
  case True
  from stored_flush [of "windows x (py_range (length x) 8192) \<noteq> []" x]
  show ?thesis
    using True
    by (simp add: written_def zstd_written_def stored_feed [of False "[]", simplified]
        stored_ext_def [THEN arg_cong, of zstd_compressor] windows_concat)
next
  case False
  from stored_flush [of True x]
  show ?thesis
    using False
    by (simp add: written_def zstd_written_def zstd_frame_def) (simp add: stored_ext_def)
qed

lemma stored_unfeed:
  "zstd_unfeed stored_ext seen chunks =
     Ok (drop (9 - seen) (concat chunks), seen + length (concat chunks))"
  by (induction chunks arbitrary: seen) (simp_all add: stored_ext_def)

lemma stored_decoded: "decoded stored_ext Zst p raw = Ok (drop 9 raw)"
proof -
  have d: "zstd_decompressor stored_ext = 0"
    and o: "zstd_decompress stored_ext 0 raw = Ok (drop 9 raw, length raw)"
    by (simp_all add: stored_ext_def)
  show ?thesis
    by (simp add: decoded_def zstd_read_def d o stored_unfeed windows_concat)
qed

lemma stored_reads_back: "reads_back stored_ext c pa pe x"
proof (cases c)
  case Zst
  from stored_written [of x pa] obtain h where "length h = 9"
    and "written stored_ext Zst x pa = h @ x"
    by blast
  with Zst show ?thesis
    by (simp add: reads_back_def stored_decoded)
next
  case Bz2
  then show ?thesis
    by (simp add: reads_back_def decoded_def written_def stored_ext_def)
qed

lemma stored_tar: "tar_read stored_ext (tar_write stored_ext ms) = Ok ms"
  by (simp add: stored_ext_def toy_tar_roundtrip)

lemma fmt_x_zst: "archive_format [''x.zst''] = Inr (Single, Zst)"
  by code_simp

lemma stem_x_zst: "stem [''x.zst''] = ''x''"
  by (simp add: stem_def path_name_def)

lemma fresh_after_archive:
  assumes "archive L src [x] pa ba w = (Ok ra, w1)"
    and "\<forall>q. \<not> prefix q [x] \<longrightarrow> lookup (fs w1) q = lookup (fs w) q"
    and "\<forall>q. strict_prefix q [x] \<longrightarrow> is_dir (fs w1) q"
    and "lookup (fs w) [y] = None" and "y \<noteq> x"
  shows "fresh (fs (snd (archive L src [x] pa ba w))) [y]"
proof -
  have "lookup (fs w1) [y] = None"
    using assms(2,4,5) by simp
  moreover have "is_dir (fs w1) []"
    using assms(3) by (simp add: strict_prefix_def)
  ultimately show ?thesis
    using assms(1) by (simp add: fresh_def exists_def is_file_def is_dir_def split: option.splits node.splits)
qed

theorem archive_extract_roundtrip_witness:
  "lookup (fs tree_world) [''d''] =
     Some (Dir [(''a'', Dir [(''b.txt'', File [1, 2]), (''c'', Dir [(''d.txt'', File [3])])])]) \<and>
   wf_node (Dir [(''a'', Dir [(''b.txt'', File [1, 2]), (''c'', Dir [(''d.txt'', File [3])])])]) \<and>
   archive_format [''x.tar.zst''] = Inr (Tar, Zst) \<and>
   writable (fs tree_world) [''x.tar.zst''] \<and>
   reads_back stored_ext Zst True True (archive_payload stored_ext (fs tree_world) [''d''] Tar) \<and>
   tar_read stored_ext (tar_write stored_ext (create_tar_archive (fs tree_world) [''d''])) =
     Ok (create_tar_archive (fs tree_world) [''d'']) \<and>
   fresh (fs (snd (archive stored_ext [''d''] [''x.tar.zst''] True False tree_world))) [''out''] \<and>
   lookup (fs (snd (extract_archive stored_ext [''x.tar.zst''] [''out''] True False
                      (snd (archive stored_ext [''d''] [''x.tar.zst''] True False tree_world)))))
     [''out'', ''a'', ''b.txt''] = Some (File [1, 2]) \<and>
   lookup (fs (snd (extract_archive stored_ext [''x.tar.zst''] [''out''] True False
                      (snd (archive stored_ext [''d''] [''x.tar.zst''] True False tree_world)))))
     [''out'', ''a'', ''c'', ''d.txt''] = Some (File [3])"
proof -
  let ?n = "Dir [(''a'', Dir [(''b.txt'', File [1, 2]), (''c'', Dir [(''d.txt'', File [3])])])]"
  have src: "lookup (fs tree_world) [''d''] = Some ?n"
    by (simp add: tree_world_def)
  have wf: "wf_node ?n"
    by simp
  have wr: "writable (fs tree_world) [''x.tar.zst'']"
    by (simp add: writable_def tree_world_def is_dir_def)
  have single: "Tar = Single \<longrightarrow> \<not> is_Dir ?n" and bz2: "Tar = Tar \<and> Zst = Bz2 \<longrightarrow> \<not> is_Dir ?n \<and> [''d''] \<noteq> [''x.tar.zst'']"
    by simp_all
  from archive_writes [OF src fmt_x_tar_zst single bz2 wr, of stored_ext True False]
  obtain ra w1 where ar: "archive stored_ext [''d''] [''x.tar.zst''] True False tree_world = (Ok ra, w1)"
    and o: "\<forall>q. \<not> prefix q [''x.tar.zst''] \<longrightarrow> lookup (fs w1) q = lookup (fs tree_world) q"
    and d: "\<forall>q. strict_prefix q [''x.tar.zst''] \<longrightarrow> is_dir (fs w1) q"
    by blast
  have fr: "fresh (fs (snd (archive stored_ext [''d''] [''x.tar.zst''] True False tree_world))) [''out'']"
    by (rule fresh_after_archive [OF ar o d]) (simp_all add: tree_world_def)
  have tar: "Tar = Tar \<longrightarrow> tar_read stored_ext (tar_write stored_ext (create_tar_archive (fs tree_world) [''d''])) =
     Ok (create_tar_archive (fs tree_world) [''d''])"
    by (simp add: stored_tar)
  from archive_extract_roundtrip [OF src wf fmt_x_tar_zst single bz2 wr stored_reads_back tar fr,
      where pe = True and be = False]
  obtain w2 where "extract_archive stored_ext [''x.tar.zst''] [''out''] True False
       (snd (archive stored_ext [''d''] [''x.tar.zst''] True False tree_world)) = w2"
    and "\<forall>p b. lookup (source_view ?n [''d'']) p = Some (File b) \<longrightarrow>
           lookup (fs (snd w2)) ([''out''] @ p) = Some (File b)"
    by auto
  then have "lookup (fs (snd (extract_archive stored_ext [''x.tar.zst''] [''out''] True False
                      (snd (archive stored_ext [''d''] [''x.tar.zst''] True False tree_world)))))
     ([''out''] @ [''a'', ''b.txt'']) = Some (File [1, 2])"
    and "lookup (fs (snd (extract_archive stored_ext [''x.tar.zst''] [''out''] True False
                      (snd (archive stored_ext [''d''] [''x.tar.zst''] True False tree_world)))))
     ([''out''] @ [''a'', ''c'', ''d.txt'']) = Some (File [3])"
    by (simp_all add: source_view_def)
  with src wf wr fr show ?thesis
    by (simp add: fmt_x_tar_zst stored_reads_back stored_tar)
qed

text \<open>
  C1 as stated fails for the raw formats: the file \<^verbatim>\<open>a.txt\<close>, archived to \<^verbatim>\<open>x.zst\<close> and
  extracted into \<^verbatim>\<open>out\<close>, comes back as \<^verbatim>\<open>out/x\<close>; there is no \<^verbatim>\<open>out/a.txt\<close>.
\<close>

theorem raw_roundtrip_renames:
  "lookup (fs file_world) [''a.txt''] = Some (File [1, 2, 3]) \<and>
   lookup (fs (snd (extract_archive toy_ext [''x.zst''] [''out''] False False
                      (snd (archive toy_ext [''a.txt''] [''x.zst''] False False file_world)))))
     [''out'', ''a.txt''] = None \<and>
   lookup (fs (snd (extract_archive toy_ext [''x.zst''] [''out''] False False
                      (snd (archive toy_ext [''a.txt''] [''x.zst''] False False file_world)))))
     [''out'', ''x''] = Some (File [1, 2, 3])"
proof -
  have src: "lookup (fs file_world) [''a.txt''] = Some (File [1, 2, 3])"
    by (simp add: file_world_def)
  have wr: "writable (fs file_world) [''x.zst'']"
    by (simp add: writable_def file_world_def is_dir_def)
  have single: "Single = Single \<longrightarrow> \<not> is_Dir (File [1, 2, 3])"
    and bz2: "Single = Tar \<and> Zst = Bz2 \<longrightarrow> \<not> is_Dir (File [1, 2, 3]) \<and> [''a.txt''] \<noteq> [''x.zst'']"
    by (simp_all add: is_Dir_def)
  from archive_writes [OF src fmt_x_zst single bz2 wr, of toy_ext False False]
  obtain ra w1 where ar: "archive toy_ext [''a.txt''] [''x.zst''] False False file_world = (Ok ra, w1)"
    and l1: "lookup (fs w1) [''x.zst''] =
               Some (File (written toy_ext Zst
                  (archive_payload toy_ext (fs file_world) [''a.txt''] Single) False))"
    and o: "\<forall>q. \<not> prefix q [''x.zst''] \<longrightarrow> lookup (fs w1) q = lookup (fs file_world) q"
    and d: "\<forall>q. strict_prefix q [''x.zst''] \<longrightarrow> is_dir (fs w1) q"
    by blast
  have p: "archive_payload toy_ext (fs file_world) [''a.txt''] Single = [1, 2, 3]"
    by (simp add: archive_payload_def file_world_def)
  have fr: "fresh (fs (snd (archive toy_ext [''a.txt''] [''x.zst''] False False file_world))) [''out'']"
    by (rule fresh_after_archive [OF ar o d]) (simp_all add: file_world_def)
  have xf: "extract_format [''x.zst''] = Inr (Single, Zst)"
    using fmt_x_zst by (simp add: extract_format_def archive_format_def)
  have dec: "decoded toy_ext Zst False (written toy_ext Zst [1, 2, 3] False) = Ok [1, 2, 3]"
    by (simp add: toy_written toy_decoded)
  from extract_raw [OF l1 [unfolded p] xf dec, of "[''out'']" False] fr ar
  obtain re w2 where "extract_archive toy_ext [''x.zst''] [''out''] False False w1 = (Ok re, w2)"
    and "lookup (fs w2) ([''out''] @ [stem [''x.zst'']]) = Some (File [1, 2, 3])"
    and "\<forall>r. r \<noteq> [] \<and> r \<noteq> [stem [''x.zst'']] \<longrightarrow> lookup (fs w2) ([''out''] @ r) = None"
    by auto
  then show ?thesis
    using ar src by (auto simp: stem_x_zst)
qed

section \<open>Progress reports\<close>

text \<open>
  The progress values of the bars that the two operations print, and the outputs of
  the successful runs.
\<close>

lemma pv_append [simp]: "progress_values (xs @ ys) = progress_values xs @ progress_values ys"
  by (simp add: progress_values_def)

lemma pv_Nil [simp]: "progress_values [] = []"
  by (simp add: progress_values_def)

lemma pv_Cons [simp]: "progress_values (ev # evs) = bar_values ev @ progress_values evs"
  by (simp add: progress_values_def)

lemma pv_bar [simp]:
  "tot \<le> 0 \<or> 0 \<le> cur \<and> cur \<le> tot \<Longrightarrow>
   progress_values (bar cur tot pfx) = (if tot \<le> 0 then [] else [(pfx, cur, tot)])"
  by (simp add: progress_values_def bar_values_eq)

lemma pv_messages [simp]: "progress_values (map Message ms) = []"
  by (induction ms) simp_all

lemma pv_chunk_bars:
  "progress_values (chunk_bars n pfx offsets) =
     (if n = 0 then [] else map (\<lambda>i. (pfx, int (min (i + 8192) n), int n)) offsets)"
  by (induction offsets) (simp_all add: chunk_bars_def)

lemma pv_loop_bars:
  "(\<And>k. i \<le> k \<Longrightarrow> k < i + n \<Longrightarrow> 0 \<le> f k \<and> f k \<le> tot) \<Longrightarrow>
   progress_values (loop_bars (\<lambda>i. bar (f i) tot pfx) i n) =
     (if tot \<le> 0 then [] else map (\<lambda>k. (pfx, f k, tot)) [i..<i + n])"
proof (induction n arbitrary: i)
  case 0
  then show ?case by simp
next
  case (Suc n)
  have u: "[i..<Suc (i + n)] = i # [Suc i..<Suc i + n]"
    by (simp add: upt_rec)
  have r: "0 \<le> f k \<and> f k \<le> tot" if "Suc i \<le> k" "k < Suc i + n" for k
    using Suc.prems [of k] that by simp
  have h: "0 \<le> f i \<and> f i \<le> tot"
    using Suc.prems [of i] by simp
  from Suc.IH [OF r] u h show ?case
    by (simp add: loop_bars_Suc del: upt_Suc)
qed

lemma sorted_py_range: "sorted_wrt (\<le>) (py_range n s)"
  by (simp add: py_range_def sorted_wrt_map sorted_wrt_iff_nth_less)

lemma chunk_values_monotone:
  "sorted_wrt (\<lambda>(l, c, t) (l', c', t'). l = l' \<and> t = t' \<longrightarrow> c \<le> c')
     (map (\<lambda>i. (pfx, int (min (i + 8192) n), int n)) (py_range n 8192))"
  using sorted_py_range [of n 8192]
  by (auto simp: sorted_wrt_map elim!: sorted_wrt_mono_rel [rotated])

lemma loop_values_monotone:
  "(\<And>a b. a \<le> b \<Longrightarrow> f a \<le> f b) \<Longrightarrow>
   sorted_wrt (\<lambda>(l, c, t) (l', c', t'). l = l' \<and> t = t' \<longrightarrow> c \<le> c')
     (map (\<lambda>k. (pfx, f k, tot)) [i..<i + n])"
  by (auto simp: sorted_wrt_map sorted_wrt_iff_nth_less)

lemma io_write_bytes_cases:
  obtains e where "io_write_bytes p data w = (Raised e, w)"
  | t where "io_write_bytes p data w = (Ok (), w\<lparr>fs := t\<rparr>)"
  by (cases "write_bytes (fs w) p data") (auto simp: io_write_bytes_def)

lemma archive_build_trace:
  assumes b: "archive_build L src dst progress t c w = (r, w1)"
    and s: "t = Single \<longrightarrow> (\<exists>data. lookup (fs w) src = Some (File data))"
  shows "stderr w1 = stderr w \<and>
         (r = Ok () \<longrightarrow> stdout w1 = stdout w @ archive_bars L (fs w) src progress t c)"
proof -
  consider (single) "t = Single" | (tz) "t = Tar" "c = Zst" | (tb) "t = Tar" "c = Bz2"
    by (cases t; cases c) auto
  then show ?thesis
  proof cases
    case single
    with s obtain data where l: "lookup (fs w) src = Some (File data)"
      by blast
    let ?E = "single_bars (length data) progress @ pack_bars c (length data) progress"
    show ?thesis
      using b single l
      by (cases rule: io_write_bytes_cases [of dst "written L c data progress" "emit ?E w"])
         (auto simp: archive_build_single [OF l] archive_bars_def archive_payload_def)
  next
    case tz
    let ?X = "tar_write L (create_tar_archive (fs w) src)"
    let ?E = "tar_bars (count_files (fs w) src) progress @ pack_bars Zst (length ?X) progress"
    show ?thesis
      using b tz
      by (cases rule: io_write_bytes_cases [of dst "written L Zst ?X progress" "emit ?E w"])
         (auto simp: archive_build_tar_zst archive_bars_def archive_payload_def)
  next
    case tb
    show ?thesis
      using b tb tar_bz2_write_out [of L src dst w]
      by (cases "tar_bz2_write L src dst w")
         (auto simp: archive_build_tar_bz2 archive_bars_def split: result.splits)
  qed
qed

lemma archive_trace:
  assumes ok: "stderr (snd (archive L src dst progress benchmark w)) = stderr w"
  shows "\<exists>t c ms. archive_format dst = Inr (t, c) \<and>
           stdout (snd (archive L src dst progress benchmark w)) =
             stdout w @ archive_bars L (fs w) src progress t c @ map Message ms"
proof -
  from ok have ex: "exists (fs w) src"
    by (rule_tac ccontr) (simp add: archive_def no_result)
  from ok ex obtain t c where fmt: "archive_format dst = Inr (t, c)"
    by (cases "archive_format dst") (auto simp: archive_def no_result)
  from ok ex fmt have nd: "\<not> (is_dir (fs w) src \<and> t \<noteq> Tar)"
    by (rule_tac notI) (simp add: archive_def no_result)
  note av = archive_valid [OF ex fmt nd, of L progress benchmark]
  obtain r w1 where b: "archive_build L src dst progress t c w = (r, w1)"
    by (cases "archive_build L src dst progress t c w")
  have s: "t = Single \<longrightarrow> (\<exists>data. lookup (fs w) src = Some (File data))"
    using ex nd by (auto simp: exists_def is_dir_def split: option.splits node.splits)
  from archive_build_trace [OF b s]
  have e1: "stderr w1 = stderr w"
    and o1: "r = Ok () \<Longrightarrow> stdout w1 = stdout w @ archive_bars L (fs w) src progress t c"
    by simp_all
  show ?thesis
  proof (cases r)
    case (Raised e)
    with b have "archive L src dst progress benchmark w =
        (Ok NoResult, w1\<lparr>stderr := stderr w1 @ [ArchiveFailed e]\<rparr>)"
      unfolding av by (simp add: try_except_Raised)
    with ok e1 show ?thesis by simp
  next
    case (Ok u)
    with b have b': "archive_build L src dst progress t c w = (Ok (), w1)"
      by simp
    from try_except_Ok [of "archive_build L src dst progress t c" w w1 src dst benchmark
        ArchiveFailed, OF b']
    obtain r' ms where "archive L src dst progress benchmark w = (Ok r', emit (map Message ms) w1)"
      unfolding av by blast
    with o1 Ok fmt show ?thesis
      by (intro exI [of _ t] exI [of _ c] exI [of _ ms]) simp
  qed
qed

lemma io_bind_OkE:
  assumes "io_bind m f w = (Ok y, w'')"
  obtains x w' where "m w = (Ok x, w')" and "f x w' = (Ok y, w'')"
  using assms by (cases "m w") (auto simp: io_bind_def split: result.splits)

lemma decompress_loop_trace:
  "decompress_loop L data offsets d acc w = (Ok (d', out), w') \<Longrightarrow>
   w' = emit (chunk_bars (length data) Unpacking offsets) w \<and>
   (\<exists>outs. zstd_unfeed L d (windows data offsets) = Ok (outs, d') \<and> out = acc @ outs)"
proof (induction offsets arbitrary: d acc w)
  case Nil
  then show ?case
    by (simp add: io_return_def chunk_bars_def windows_def)
next
  case (Cons i rest)
  from Cons.prems obtain o1 d1
    where s: "zstd_decompress L d (take 8192 (drop i data)) = Ok (o1, d1)"
      and r: "decompress_loop L data rest d1 (acc @ o1)
                (emit (bar (int (min (i + 8192) (length data))) (int (length data)) Unpacking) w) =
              (Ok (d', out), w')"
    by (cases "zstd_decompress L d (take 8192 (drop i data))")
       (auto simp: Let_def io_simps)
  from Cons.IH [OF r] s show ?case
    by (auto simp: chunk_bars_def windows_def)
qed

lemma io_read_bytes_OkE:
  assumes "io_read_bytes p w = (Ok raw, w')"
  shows "lookup (fs w) p = Some (File raw) \<and> w' = w"
  using assms
  by (auto simp: io_read_bytes_def read_bytes_def split: option.splits node.splits)

lemma decompress_zstd_trace:
  assumes "decompress_zstd L p show_progress w = (Ok x, w')"
  shows "\<exists>raw. lookup (fs w) p = Some (File raw) \<and> zstd_read L show_progress raw = Ok x \<and>
               w' = emit (unpack_bars (length raw) show_progress) w"
proof -
  from assms obtain raw w0 where rd: "io_read_bytes p w = (Ok raw, w0)"
    and rest: "(if show_progress then
          io_bind (decompress_loop L raw (py_range (length raw) 8192) (zstd_decompressor L) [])
            (\<lambda>(decompressor', decompressed).
               io_bind (print_progress (int (length raw)) (int (length raw)) Unpacking) (\<lambda>_.
               io_bind (print_out Newline) (\<lambda>_.
               io_return decompressed)))
        else
          io_bind (io_lift (zstd_decompress L (zstd_decompressor L) raw)) (\<lambda>(out, decompressor').
          io_return out)) w0 = (Ok x, w')"
    unfolding decompress_zstd_def Let_def by (rule io_bind_OkE)
  from io_read_bytes_OkE [OF rd] have l: "lookup (fs w) p = Some (File raw)" and w0: "w0 = w"
    by simp_all
  show ?thesis
  proof (cases show_progress)
    case True
    with rest w0 have "io_bind (decompress_loop L raw (py_range (length raw) 8192) (zstd_decompressor L) [])
            (\<lambda>(decompressor', decompressed).
               io_bind (print_progress (int (length raw)) (int (length raw)) Unpacking) (\<lambda>_.
               io_bind (print_out Newline) (\<lambda>_.
               io_return decompressed))) w = (Ok x, w')"
      by simp
    then obtain y w1
      where lp0: "decompress_loop L raw (py_range (length raw) 8192) (zstd_decompressor L) [] w =
                   (Ok y, w1)"
        and fin0: "(case y of (decompressor', decompressed) \<Rightarrow>
               io_bind (print_progress (int (length raw)) (int (length raw)) Unpacking) (\<lambda>_.
               io_bind (print_out Newline) (\<lambda>_.
               io_return decompressed))) w1 = (Ok x, w')"
      by (rule io_bind_OkE)
    obtain d' out where y: "y = (d', out)" by (cases y)
    from lp0 y have lp: "decompress_loop L raw (py_range (length raw) 8192) (zstd_decompressor L) [] w =
                   (Ok (d', out), w1)" by simp
    from fin0 y have fin: "io_bind (print_progress (int (length raw)) (int (length raw)) Unpacking) (\<lambda>_.
               io_bind (print_out Newline) (\<lambda>_. io_return out)) w1 = (Ok x, w')"
      by simp
    from decompress_loop_trace [OF lp] fin True l show ?thesis
      by (auto simp: io_simps io_return_def zstd_read_def unpack_bars_def)
  next
    case False
    with rest w0 l show ?thesis
      by (cases "zstd_decompress L (zstd_decompressor L) raw")
         (auto simp: io_simps io_return_def zstd_read_def unpack_bars_def)
  qed
qed

lemma decompress_bz2_trace:
  assumes "decompress_bz2 L p show_progress w = (Ok x, w')"
  shows "\<exists>raw. lookup (fs w) p = Some (File raw) \<and> bz2_decompress L raw = Ok x \<and>
               w' = emit (decode_bars Bz2 (length raw) show_progress) w"
proof -
  from assms obtain raw w0 where rd: "io_read_bytes p w = (Ok raw, w0)"
    and rest: "(if show_progress then
         io_bind (io_lift (bz2_decompress L raw)) (\<lambda>decompressed.
         io_bind (print_progress (int (length raw)) (int (length raw)) Unpacking) (\<lambda>_.
         io_bind (print_out Newline) (\<lambda>_.
         io_return decompressed)))
       else io_lift (bz2_decompress L raw)) w0 = (Ok x, w')"
    unfolding decompress_bz2_def by (rule io_bind_OkE)
  from io_read_bytes_OkE [OF rd] have l: "lookup (fs w) p = Some (File raw)" and w0: "w0 = w"
    by simp_all
  from rest w0 l show ?thesis
    by (cases show_progress; cases "bz2_decompress L raw")
       (auto simp: io_simps io_return_def io_lift_def decode_bars_def)
qed

lemma extractall_out:
  "stdout (snd (extractall dest ms w)) = stdout w \<and> stderr (snd (extractall dest ms w)) = stderr w"
proof (induction ms arbitrary: w)
  case Nil
  then show ?case by (simp add: io_return_def)
next
  case (Cons mem ms)
  show ?case
    using extract_member_out [of dest mem w] Cons.IH [of "snd (extract_member dest mem w)"]
    by (cases "extract_member dest mem w") (auto simp: io_bind_def split: result.splits)
qed

lemma extract_loop_trace:
  assumes rep: "\<And>i w x w'. report i w = (Ok x, w') \<Longrightarrow> w' = emit (rb i) w"
  shows "extract_loop dest report i ms w = (Ok u, w') \<Longrightarrow>
         stdout w' = stdout w @ loop_bars rb i (length ms) \<and> stderr w' = stderr w"
proof (induction ms arbitrary: w i)
  case Nil
  then show ?case by (simp add: io_return_def)
next
  case (Cons mem ms)
  from Cons.prems have "io_bind (extract_member dest mem) (\<lambda>_.
       io_bind (report i) (\<lambda>_. extract_loop dest report (Suc i) ms)) w = (Ok u, w')"
    by simp
  then obtain x w1 where m0: "extract_member dest mem w = (Ok x, w1)"
    and r0: "io_bind (report i) (\<lambda>_. extract_loop dest report (Suc i) ms) w1 = (Ok u, w')"
    by (rule io_bind_OkE)
  from m0 have m: "extract_member dest mem w = (Ok (), w1)" by simp
  from r0 obtain x' w2 where p: "report i w1 = (Ok x', w2)"
    and r1: "extract_loop dest report (Suc i) ms w2 = (Ok u, w')"
    by (rule io_bind_OkE)
  from rep [OF p] have "w2 = emit (rb i) w1" .
  with r1 have r: "extract_loop dest report (Suc i) ms (emit (rb i) w1) = (Ok u, w')" by simp
  from Cons.IH [OF r] extract_member_out [of dest mem w] m show ?case
    by (simp add: loop_bars_Suc)
qed

lemma mkdir_keeps_files:
  "mkdir tree p = Ok t \<Longrightarrow> lookup tree q = Some (File b) \<Longrightarrow> lookup t q = Some (File b)"
proof (induction tree p arbitrary: t q rule: mkdir.induct)
  case (4 es c cs)
  from "4.prems"(2) obtain c' qs where q: "q = c' # qs"
    by (cases q) auto
  show ?case
  proof (cases "map_of es c")
    case None
    with 4 q show ?thesis
      by (auto simp: map_add_def split: if_splits option.splits)
  next
    case (Some m)
    with 4 q show ?thesis
      by (auto simp: AList.update_conv' split: result.splits option.splits)
  qed
qed (simp_all add: lookup_File)

lemma io_bind_stderr:
  assumes "\<And>w. stderr (snd (m w)) = stderr w"
    and "\<And>x w. stderr (snd (f x w)) = stderr w"
  shows "stderr (snd (io_bind m f w)) = stderr w"
  using assms(1) [of w] assms(2)
  by (cases "m w") (auto simp: io_bind_def split: result.splits)

lemma decompress_loop_stderr:
  "stderr (snd (decompress_loop L data offsets d acc w)) = stderr w"
proof (induction offsets arbitrary: d acc w)
  case Nil
  then show ?case by (simp add: io_return_def)
next
  case (Cons i rest)
  show ?case
    by (cases "zstd_decompress L d (take 8192 (drop i data))")
       (auto simp: Let_def io_simps Cons.IH)
qed

lemma basic_stderr [simp]:
  "stderr (snd (io_return x w)) = stderr w"
  "stderr (snd (io_lift r w)) = stderr w"
  "stderr (snd (print_progress cur tot pfx w)) = stderr w"
  "stderr (snd (print_out ev w)) = stderr w"
  "stderr (snd (io_read_bytes p w)) = stderr w"
  "stderr (snd (io_write_bytes p data w)) = stderr w"
  by (simp_all add: io_return_def io_lift_def print_progress_stderr print_out_eq io_read_bytes_def
        io_write_bytes_def split: result.splits)

lemma io_when_stderr:
  "(\<And>w. stderr (snd (m w)) = stderr w) \<Longrightarrow> stderr (snd (io_when b m w)) = stderr w"
  by (simp add: io_when_eq)

lemma decompress_zstd_stderr: "stderr (snd (decompress_zstd L p sp w)) = stderr w"
  unfolding decompress_zstd_def Let_def
  by (intro io_bind_stderr) (auto simp: decompress_loop_stderr intro!: io_bind_stderr)

lemma decompress_bz2_stderr: "stderr (snd (decompress_bz2 L p sp w)) = stderr w"
  unfolding decompress_bz2_def
  by (intro io_bind_stderr) (auto intro!: io_bind_stderr)

lemma extract_loop_stderr:
  "stderr (snd (extract_loop dest (\<lambda>i. print_progress (f i) (g i) l) i ms w)) = stderr w"
proof (induction ms arbitrary: w i)
  case Nil
  then show ?case by simp
next
  case (Cons mem ms)
  show ?case
    by (auto simp: Cons.IH extract_member_out intro!: io_bind_stderr)
qed

lemma extract_unpack_stderr:
  "stderr (snd (extract_unpack L ap dest progress t c w)) = stderr w"
  unfolding extract_unpack_def Let_def
  by (auto simp: extract_loop_stderr extractall_out decompress_zstd_stderr decompress_bz2_stderr
        intro!: io_bind_stderr io_when_stderr)

lemma extract_loop_progress_trace:
  "extract_loop dest (\<lambda>i. print_progress (f i) tot l) i ms w = (Ok u, w') \<Longrightarrow>
   stdout w' = stdout w @ loop_bars (\<lambda>i. bar (f i) tot l) i (length ms)"
proof -
  assume a: "extract_loop dest (\<lambda>i. print_progress (f i) tot l) i ms w = (Ok u, w')"
  have r: "w2 = emit (bar (f k) tot l) w1" if "print_progress (f k) tot l w1 = (Ok x, w2)"
    for k w1 x w2
    using that by (rule print_progress_Ok)
  from extract_loop_trace [where report = "\<lambda>i. print_progress (f i) tot l"
      and rb = "\<lambda>i. bar (f i) tot l", OF r a]
  show ?thesis by simp
qed

lemma extractall_trace:
  "extractall dest ms w = (Ok u, w') \<Longrightarrow> stdout w' = stdout w"
  using extractall_out [of dest ms w] by simp

lemma io_bind_when_progress:
  "tot \<le> 0 \<or> 0 \<le> cur \<and> cur \<le> tot \<Longrightarrow>
   io_bind (io_when b (print_progress cur tot l)) f w =
     f () (emit (if b then bar cur tot l else []) w)"
  by (cases b) (simp_all add: io_when_eq io_bind_def print_progress_eq emit_def)

lemma extract_unpack_trace:
  assumes u: "extract_unpack L ap dest progress t c w = (Ok u, w')"
  shows "\<exists>raw. lookup (fs w) ap = Some (File raw) \<and>
           stdout w' = stdout w @ extract_bars L progress t c raw \<and>
           (t = Tar \<longrightarrow> (\<exists>ms. archive_members L progress c raw = Ok ms))"
proof -
  consider (single) "t = Single" | (tz) "t = Tar" "c = Zst" | (tb) "t = Tar" "c = Bz2"
    by (cases t; cases c) auto
  then show ?thesis
  proof cases
    case single
    let ?w0 = "emit (if progress then bar 0 1 Unpacking else []) w"
    from u single have
      "io_bind (if c = Zst then decompress_zstd L ap progress else decompress_bz2 L ap progress)
         (\<lambda>data. io_bind (io_write_bytes (dest @ [stem ap]) data) (\<lambda>_.
            io_when progress (io_bind (print_progress 1 1 Unpacking) (\<lambda>_. print_out Newline))))
         ?w0 = (Ok u, w')"
      by (simp add: extract_unpack_def Let_def io_bind_when_progress)
    then obtain data w1
      where d: "(if c = Zst then decompress_zstd L ap progress else decompress_bz2 L ap progress) ?w0 =
                  (Ok data, w1)"
        and r: "io_bind (io_write_bytes (dest @ [stem ap]) data) (\<lambda>_.
            io_when progress (io_bind (print_progress 1 1 Unpacking) (\<lambda>_. print_out Newline))) w1 =
              (Ok u, w')"
      by (rule io_bind_OkE)
    from d obtain raw where l: "lookup (fs w) ap = Some (File raw)"
      and w1: "w1 = emit (decode_bars c (length raw) progress) ?w0"
      using decompress_zstd_trace [of L ap progress ?w0 data w1]
        decompress_bz2_trace [of L ap progress ?w0 data w1]
      by (cases c) (auto simp: decode_bars_def)
    from r obtain y w2 where wr: "io_write_bytes (dest @ [stem ap]) data w1 = (Ok y, w2)"
      and fin: "io_when progress (io_bind (print_progress 1 1 Unpacking) (\<lambda>_. print_out Newline)) w2 =
                  (Ok u, w')"
      by (rule io_bind_OkE)
    from io_write_bytes_out [of "dest @ [stem ap]" data w1] wr have "stdout w2 = stdout w1"
      by simp
    with fin have "stdout w' = stdout w1 @ (if progress then bar 1 1 Unpacking @ [Newline] else [])"
      by (auto simp: io_when_eq io_bind_progress print_out_eq split: if_splits)
    with l w1 single show ?thesis
      by (auto simp: extract_bars_def Let_def)
  next
    case tz
    let ?w0 = "emit (if progress then bar 0 1 UnpackingZstd else []) w"
    from u tz have
      "io_bind (decompress_zstd L ap progress) (\<lambda>decompressed.
         io_bind (io_when progress (print_progress 1 2 UnpackingTar)) (\<lambda>_.
         io_bind (io_lift (tar_read L decompressed)) (\<lambda>members.
           if progress then
             io_bind
               (extract_loop dest
                  (\<lambda>i. print_progress (int i + 1 + int (length members))
                          (int (length members) * 2) UnpackingTar) 0 members)
               (\<lambda>_. print_out Newline)
           else extractall dest members))) ?w0 = (Ok u, w')"
      by (simp add: extract_unpack_def Let_def io_bind_when_progress)
    then obtain stream w1 where d: "decompress_zstd L ap progress ?w0 = (Ok stream, w1)"
      and r: "io_bind (io_when progress (print_progress 1 2 UnpackingTar)) (\<lambda>_.
         io_bind (io_lift (tar_read L stream)) (\<lambda>members.
           if progress then
             io_bind
               (extract_loop dest
                  (\<lambda>i. print_progress (int i + 1 + int (length members))
                          (int (length members) * 2) UnpackingTar) 0 members)
               (\<lambda>_. print_out Newline)
           else extractall dest members)) w1 = (Ok u, w')"
      by (rule io_bind_OkE)
    from decompress_zstd_trace [OF d] obtain raw where l: "lookup (fs w) ap = Some (File raw)"
      and z: "zstd_read L progress raw = Ok stream"
      and w1: "w1 = emit (unpack_bars (length raw) progress) ?w0"
      by auto
    let ?w2 = "emit (if progress then bar 1 2 UnpackingTar else []) w1"
    from r obtain ms where tr: "tar_read L stream = Ok ms"
      and x: "(if progress then
             io_bind
               (extract_loop dest
                  (\<lambda>i. print_progress (int i + 1 + int (length ms))
                          (int (length ms) * 2) UnpackingTar) 0 ms)
               (\<lambda>_. print_out Newline)
           else extractall dest ms) ?w2 = (Ok u, w')"
      by (cases "tar_read L stream") (auto simp: io_bind_when_progress io_simps)
    from z tr have am: "archive_members L progress Zst raw = Ok ms"
      by (simp add: archive_members_def)
    then have mc: "member_count L progress Zst raw = length ms"
      by (simp add: member_count_def)
    have "stdout w' = stdout ?w2 @
        (if progress
         then loop_bars (\<lambda>i. bar (int i + 1 + int (length ms)) (int (length ms) * 2) UnpackingTar)
                0 (length ms) @ [Newline]
         else [])"
    proof (cases progress)
      case True
      with x obtain y w3 where lp: "extract_loop dest
                  (\<lambda>i. print_progress (int i + 1 + int (length ms))
                          (int (length ms) * 2) UnpackingTar) 0 ms ?w2 = (Ok y, w3)"
        and nl: "print_out Newline w3 = (Ok u, w')"
        by (auto elim: io_bind_OkE)
      from extract_loop_progress_trace [OF lp] nl show ?thesis
        using True by (auto simp: print_out_eq)
    next
      case False
      with x extractall_trace [of dest ms ?w2 u w'] show ?thesis by simp
    qed
    with l w1 tz am mc show ?thesis
      by (auto simp: extract_bars_def decode_bars_def Let_def)
  next
    case tb
    let ?w0 = "emit (if progress then bar 0 1 Unpacking else []) w"
    from u tb have
      "io_bind (io_read_bytes ap) (\<lambda>raw.
           io_bind (io_lift (bz2_decompress L raw)) (\<lambda>stream.
           io_bind (io_lift (tar_read L stream)) (\<lambda>members.
             if progress then
               io_bind
                 (extract_loop dest
                    (\<lambda>i. print_progress (int i + 1) (int (length members)) Unpacking) 0 members)
                 (\<lambda>_. print_out Newline)
             else extractall dest members))) ?w0 = (Ok u, w')"
      by (simp add: extract_unpack_def Let_def io_bind_when_progress)
    then obtain raw w1 where rd: "io_read_bytes ap ?w0 = (Ok raw, w1)"
      and r: "io_bind (io_lift (bz2_decompress L raw)) (\<lambda>stream.
           io_bind (io_lift (tar_read L stream)) (\<lambda>members.
             if progress then
               io_bind
                 (extract_loop dest
                    (\<lambda>i. print_progress (int i + 1) (int (length members)) Unpacking) 0 members)
                 (\<lambda>_. print_out Newline)
             else extractall dest members)) w1 = (Ok u, w')"
      by (rule io_bind_OkE)
    from io_read_bytes_OkE [OF rd] have l: "lookup (fs w) ap = Some (File raw)" and w1: "w1 = ?w0"
      by simp_all
    from r obtain stream ms where bz: "bz2_decompress L raw = Ok stream"
      and tr: "tar_read L stream = Ok ms"
      and x: "(if progress then
               io_bind
                 (extract_loop dest
                    (\<lambda>i. print_progress (int i + 1) (int (length ms)) Unpacking) 0 ms)
                 (\<lambda>_. print_out Newline)
             else extractall dest ms) w1 = (Ok u, w')"
    proof -
      from r obtain stream w2 where a: "io_lift (bz2_decompress L raw) w1 = (Ok stream, w2)"
        and b: "io_bind (io_lift (tar_read L stream)) (\<lambda>members.
             if progress then
               io_bind
                 (extract_loop dest
                    (\<lambda>i. print_progress (int i + 1) (int (length members)) Unpacking) 0 members)
                 (\<lambda>_. print_out Newline)
             else extractall dest members) w2 = (Ok u, w')"
        by (rule io_bind_OkE)
      from b obtain ms w3 where c: "io_lift (tar_read L stream) w2 = (Ok ms, w3)"
        and d: "(if progress then
               io_bind
                 (extract_loop dest
                    (\<lambda>i. print_progress (int i + 1) (int (length ms)) Unpacking) 0 ms)
                 (\<lambda>_. print_out Newline)
             else extractall dest ms) w3 = (Ok u, w')"
        by (rule io_bind_OkE)
      from a c d show ?thesis
        by (intro that [of stream ms]) (simp_all add: io_lift_def)
    qed
    from bz tr have am: "archive_members L progress Bz2 raw = Ok ms"
      by (simp add: archive_members_def)
    then have mc: "member_count L progress Bz2 raw = length ms"
      by (simp add: member_count_def)
    have "stdout w' = stdout w1 @
        (if progress
         then loop_bars (\<lambda>i. bar (int i + 1) (int (length ms)) Unpacking) 0 (length ms) @ [Newline]
         else [])"
    proof (cases progress)
      case True
      with x obtain y w3 where lp: "extract_loop dest
                  (\<lambda>i. print_progress (int i + 1) (int (length ms)) Unpacking) 0 ms w1 = (Ok y, w3)"
        and nl: "print_out Newline w3 = (Ok u, w')"
        by (auto elim: io_bind_OkE)
      from extract_loop_progress_trace [OF lp] nl show ?thesis
        using True by (auto simp: print_out_eq)
    next
      case False
      with x extractall_trace [of dest ms w1 u w'] show ?thesis by simp
    qed
    with l w1 tb am mc show ?thesis
      by (auto simp: extract_bars_def Let_def)
  qed
qed

lemma extract_trace:
  assumes r: "extract_archive L ap dest progress benchmark w = (Ok r, w')"
    and ok: "stderr w' = stderr w"
  shows "\<exists>t c raw ms. extract_format ap = Inr (t, c) \<and> lookup (fs w) ap = Some (File raw) \<and>
           stdout w' = stdout w @ extract_bars L progress t c raw @ map Message ms \<and>
           (t = Tar \<longrightarrow> (\<exists>mems. archive_members L progress c raw = Ok mems))"
proof -
  from r ok have ex: "exists (fs w) ap"
    by (rule_tac ccontr) (auto simp: extract_archive_def io_bind_def print_err_def io_return_def)
  from r ok ex obtain t c where fmt: "extract_format ap = Inr (t, c)"
    by (cases "extract_format ap")
       (auto simp: extract_archive_def io_bind_def print_err_def io_return_def)
  note ev = extract_valid [OF ex fmt, of L dest progress benchmark]
  from r obtain x w0 where mk: "io_mkdir dest w = (Ok x, w0)"
    and tr: "try_except
         (io_bind (extract_unpack L ap dest progress t c)
            (\<lambda>_. extract_report dest benchmark))
         ExtractFailed w0 = (Ok r, w')"
    unfolding ev by (rule io_bind_OkE)
  from mk obtain tree where m: "mkdir (fs w) dest = Ok tree" and w0: "w0 = w\<lparr>fs := tree\<rparr>"
    by (cases "mkdir (fs w) dest") (auto simp: io_mkdir_eq)
  obtain ru w1 where un: "extract_unpack L ap dest progress t c w0 = (ru, w1)"
    by (cases "extract_unpack L ap dest progress t c w0")
  from extract_unpack_stderr [of L ap dest progress t c w0] un w0
  have e1: "stderr w1 = stderr w" by simp
  show ?thesis
  proof (cases ru)
    case (Raised e)
    with un tr have "w' = w1\<lparr>stderr := stderr w1 @ [ExtractFailed e]\<rparr>"
      by (simp add: try_except_def io_bind_def print_err_def io_return_def)
    with ok e1 show ?thesis by simp
  next
    case (Ok u)
    with un have un': "extract_unpack L ap dest progress t c w0 = (Ok (), w1)"
      by simp
    from try_extract_Ok [of "extract_unpack L ap dest progress t c" w0 w1 dest benchmark
        ExtractFailed, OF un'] tr
    obtain m where w': "w' = emit [Message m] w1"
      by auto
    from extract_unpack_trace [OF un'] obtain raw
      where l0: "lookup (fs w0) ap = Some (File raw)"
        and o: "stdout w1 = stdout w0 @ extract_bars L progress t c raw"
        and am: "t = Tar \<longrightarrow> (\<exists>ms. archive_members L progress c raw = Ok ms)"
      by blast
    from ex obtain n where n: "lookup (fs w) ap = Some n"
      by (auto simp: exists_def split: option.splits)
    have l: "lookup (fs w) ap = Some (File raw)"
    proof (cases n)
      case (File b)
      with n mkdir_keeps_files [OF m] l0 w0 show ?thesis by simp
    next
      case (Dir es)
      with n have d: "is_dir (fs w) ap" by (simp add: is_dir_def)
      have "lookup tree ap = lookup (fs w) ap"
      proof (cases "prefix ap dest")
        case True
        from mkdir_is_dir [OF m True] l0 w0 show ?thesis
          by (simp add: is_dir_def)
      next
        case False
        from mkdir_lookup_other [OF m False] show ?thesis .
      qed
      with l0 w0 show ?thesis by simp
    qed
    from l o w' w0 fmt am show ?thesis
      by (intro exI [of _ t] exI [of _ c] exI [of _ raw] exI [of _ "[m]"]) simp
  qed
qed

lemma monotone_append:
  "same_bar_monotone (xs @ ys) \<longleftrightarrow>
     same_bar_monotone xs \<and> same_bar_monotone ys \<and>
     (\<forall>(l, c, t) \<in> set xs. \<forall>(l', c', t') \<in> set ys. l = l' \<and> t = t' \<longrightarrow> c \<le> c')"
  by (auto simp: same_bar_monotone_def sorted_wrt_append)

lemma monotone_Nil [simp]: "same_bar_monotone []"
  by (simp add: same_bar_monotone_def)

lemma monotone_single [simp]: "same_bar_monotone [v]"
  by (simp add: same_bar_monotone_def)

lemma monotone_Cons:
  "same_bar_monotone (v # vs) \<longleftrightarrow>
     same_bar_monotone vs \<and>
     (\<forall>(l', c', t') \<in> set vs. fst v = l' \<and> snd (snd v) = t' \<longrightarrow> fst (snd v) \<le> c')"
  by (cases v) (auto simp: same_bar_monotone_def)

lemma monotone_chunks:
  "same_bar_monotone (map (\<lambda>i. (pfx, int (min (i + 8192) n), int n)) (py_range n 8192))"
  unfolding same_bar_monotone_def by (rule chunk_values_monotone)

lemma monotone_loop:
  "(\<And>a b. a \<le> b \<Longrightarrow> f a \<le> f b) \<Longrightarrow> same_bar_monotone (map (\<lambda>k. (pfx, f k, tot)) [i..<i + n])"
  unfolding same_bar_monotone_def by (rule loop_values_monotone)

lemma monotone_loop0:
  "(\<And>a b. a \<le> b \<Longrightarrow> f a \<le> f b) \<Longrightarrow> same_bar_monotone (map (\<lambda>k. (pfx, f k, tot)) [0..<n])"
  using monotone_loop [of f pfx tot 0 n] by simp

lemma ends_loop0:
  "0 < n \<Longrightarrow> ends_at_total (map (\<lambda>k. (pfx, f k, tot)) [0..<n]) \<longleftrightarrow> f (n - 1) = tot"
  by (cases n) (simp_all add: ends_at_total_def)

lemma ends_append:
  "ends_at_total (xs @ ys) = (if ys = [] then ends_at_total xs else ends_at_total ys)"
  by (simp add: ends_at_total_def)

lemma ends_Nil [simp]: "ends_at_total []"
  by (simp add: ends_at_total_def)

lemma ends_single [simp]: "ends_at_total [(l, c, t)] \<longleftrightarrow> c = t"
  by (simp add: ends_at_total_def)

lemma ends_Cons:
  "ends_at_total ((l, c, t) # vs) = (if vs = [] then c = t else ends_at_total vs)"
  by (simp add: ends_at_total_def)

lemma pack_values:
  "progress_values (pack_bars c n progress) =
     (if progress \<and> 0 < n
      then (case c of Zst \<Rightarrow> map (\<lambda>i. (Compressing, int (min (i + 8192) n), int n)) (py_range n 8192)
                    | Bz2 \<Rightarrow> [])
             @ [(Compressing, int n, int n)]
      else [])"
  by (cases c) (simp_all add: pack_bars_def pv_chunk_bars)

lemma pack_monotone: "same_bar_monotone (progress_values (pack_bars c n progress))"
  by (cases c) (auto simp: pack_values monotone_append monotone_chunks)

lemma pack_ends: "ends_at_total (progress_values (pack_bars c n progress))"
  by (simp add: pack_values ends_append)

lemma pack_labels:
  "(l, k, t) \<in> set (progress_values (pack_bars c n progress)) \<Longrightarrow> l = Compressing"
  by (cases c) (auto simp: pack_values split: if_splits)

lemma decode_values:
  "progress_values (decode_bars c n progress) =
     (if progress \<and> 0 < n
      then (case c of Zst \<Rightarrow> map (\<lambda>i. (Unpacking, int (min (i + 8192) n), int n)) (py_range n 8192)
                    | Bz2 \<Rightarrow> [])
             @ [(Unpacking, int n, int n)]
      else [])"
  by (cases c) (simp_all add: decode_bars_def unpack_bars_def pv_chunk_bars)

lemma decode_monotone: "same_bar_monotone (progress_values (decode_bars c n progress))"
  by (cases c) (auto simp: decode_values monotone_append monotone_chunks)

lemma decode_bounds:
  "(l, k, t) \<in> set (progress_values (decode_bars c n progress)) \<Longrightarrow>
   l = Unpacking \<and> 0 < k \<and> k \<le> t \<and> t = int n"
  by (cases c) (auto simp: decode_values split: if_splits)

lemma archive_bars_monotone:
  "same_bar_monotone (progress_values (archive_bars L tree src progress t c))"
proof (cases t)
  case Single
  then show ?thesis
    by (auto simp: archive_bars_def single_bars_def monotone_append pack_monotone monotone_Cons
          dest: pack_labels)
next
  case Tar
  then show ?thesis
    by (cases c)
       (auto simp: archive_bars_def tar_bars_def bz2_bars_def monotone_append pack_monotone
          monotone_Cons dest: pack_labels)
qed

lemma archive_bars_ends:
  "ends_at_total (progress_values (archive_bars L tree src progress t c))"
proof (cases t)
  case Single
  then show ?thesis
    using pack_ends [of c "length (archive_payload L tree src Single)" progress]
    by (auto simp: archive_bars_def single_bars_def ends_append ends_Cons)
next
  case Tar
  then show ?thesis
    using pack_ends [of Zst "length (archive_payload L tree src Tar)" progress]
    by (cases c) (auto simp: archive_bars_def tar_bars_def bz2_bars_def ends_append ends_Cons)
qed

lemma extract_bars_monotone:
  "same_bar_monotone (progress_values (extract_bars L progress t c raw))"
proof (cases t)
  case Single
  then show ?thesis
    by (auto simp: extract_bars_def Let_def monotone_append decode_monotone monotone_Cons
          dest!: decode_bounds)
next
  case Tar
  show ?thesis
  proof (cases c)
    case Zst
    with Tar show ?thesis
      by (auto simp: extract_bars_def Let_def pv_loop_bars monotone_append decode_monotone
            monotone_Cons monotone_loop0 dest!: decode_bounds)
  next
    case Bz2
    with Tar show ?thesis
      by (auto simp: extract_bars_def Let_def pv_loop_bars monotone_append monotone_Cons
            monotone_loop0)
  qed
qed

lemma extract_bars_ends:
  assumes "t = Tar \<longrightarrow> 0 < member_count L progress c raw"
  shows "ends_at_total (progress_values (extract_bars L progress t c raw))"
proof (cases t)
  case Single
  then show ?thesis
    by (auto simp: extract_bars_def Let_def ends_append ends_Cons decode_values)
next
  case Tar
  with assms have n: "0 < member_count L progress c raw" by simp
  with Tar show ?thesis
    by (cases c)
       (auto simp: extract_bars_def Let_def pv_loop_bars ends_append ends_Cons ends_loop0
          decode_values)
qed

lemma archive_reported:
  assumes "completes (archive L src dst progress benchmark) w"
  shows "\<exists>t c. archive_format dst = Inr (t, c) \<and>
           reported (archive L src dst progress benchmark) w =
             progress_values (archive_bars L (fs w) src progress t c)"
proof -
  from assms have "stderr (snd (archive L src dst progress benchmark w)) = stderr w"
    by (simp add: completes_def split: result.splits)
  from archive_trace [OF this] show ?thesis
    by (auto simp: reported_def)
qed

lemma extract_reported:
  assumes "completes (extract_archive L ap dest progress benchmark) w"
  shows "\<exists>t c raw. extract_format ap = Inr (t, c) \<and> lookup (fs w) ap = Some (File raw) \<and>
           reported (extract_archive L ap dest progress benchmark) w =
             progress_values (extract_bars L progress t c raw)"
proof -
  obtain x w' where e: "extract_archive L ap dest progress benchmark w = (x, w')"
    by (cases "extract_archive L ap dest progress benchmark w")
  with assms obtain r where r: "extract_archive L ap dest progress benchmark w = (Ok r, w')"
    and ok: "stderr w' = stderr w"
    by (cases x) (auto simp: completes_def)
  from extract_trace [OF r ok] r show ?thesis
    by (auto simp: reported_def)
qed

lemma completesI: "m w = (Ok r, w') \<Longrightarrow> stderr w' = stderr w \<Longrightarrow> completes m w"
  by (simp add: completes_def)

lemma fmt_e_tar_bz2: "extract_format [''e.tar.bz2''] = Inr (Tar, Bz2)"
  by code_simp

lemma xfmt_x_tar_zst: "extract_format [''x.tar.zst''] = Inr (Tar, Zst)"
  by code_simp

lemma archive_members_decoded:
  "archive_members L p c raw =
     (case decoded L c p raw of Raised e \<Rightarrow> Raised e | Ok stream \<Rightarrow> tar_read L stream)"
  by (cases c) (simp_all add: archive_members_def decoded_def)

lemma toy_members:
  "archive_members toy_ext pe c (written toy_ext c (tar_write toy_ext ms) pa) = Ok ms"
  by (cases c) (simp_all add: archive_members_decoded toy_decoded toy_written toy_tar)

text \<open>
  C6, as amended. In every run of \<^verbatim>\<open>archive\<close> or \<^verbatim>\<open>extract\<close> that completes
  successfully, the progress reports of one bar (the reports with the same label and the
  same total) are non-decreasing in their current count; every phase starts a bar of its
  own, and the count starts again with it. The last report of a run of \<^verbatim>\<open>archive\<close>
  has its count equal to its total, and so has the last report of a run of
  \<^verbatim>\<open>extract\<close>, provided that a tar archive holds at least one member.
\<close>

theorem progress_per_bar_monotone:
  "(completes (archive L src dst pa ba) w \<longrightarrow>
      same_bar_monotone (reported (archive L src dst pa ba) w) \<and>
      ends_at_total (reported (archive L src dst pa ba) w)) \<and>
   (completes (extract_archive L ap dest pe be) w' \<longrightarrow>
      same_bar_monotone (reported (extract_archive L ap dest pe be) w') \<and>
      (tar_has_members L pe (fs w') ap \<longrightarrow>
         ends_at_total (reported (extract_archive L ap dest pe be) w')))"
proof (intro conjI impI)
  assume "completes (archive L src dst pa ba) w"
  from archive_reported [OF this] obtain t c
    where "reported (archive L src dst pa ba) w = progress_values (archive_bars L (fs w) src pa t c)"
    by blast
  then show "same_bar_monotone (reported (archive L src dst pa ba) w)"
    and "ends_at_total (reported (archive L src dst pa ba) w)"
    by (simp_all add: archive_bars_monotone archive_bars_ends)
next
  assume "completes (extract_archive L ap dest pe be) w'"
  from extract_reported [OF this] obtain t c raw
    where fmt: "extract_format ap = Inr (t, c)" and l: "lookup (fs w') ap = Some (File raw)"
      and rep: "reported (extract_archive L ap dest pe be) w' =
                  progress_values (extract_bars L pe t c raw)"
    by blast
  from rep show "same_bar_monotone (reported (extract_archive L ap dest pe be) w')"
    by (simp add: extract_bars_monotone)
  assume "tar_has_members L pe (fs w') ap"
  with fmt l have "t = Tar \<longrightarrow> 0 < member_count L pe c raw"
    by (cases t) (simp_all add: tar_has_members_def)
  from extract_bars_ends [OF this] rep
  show "ends_at_total (reported (extract_archive L ap dest pe be) w')"
    by simp
qed

theorem progress_per_bar_monotone_witness:
  "completes (archive toy_ext [''d''] [''x.tar.zst''] True False) tree_world \<and>
   same_bar_monotone (reported (archive toy_ext [''d''] [''x.tar.zst''] True False) tree_world) \<and>
   ends_at_total (reported (archive toy_ext [''d''] [''x.tar.zst''] True False) tree_world) \<and>
   completes (extract_archive toy_ext [''x.tar.zst''] [''out''] True False)
     (snd (archive toy_ext [''d''] [''x.tar.zst''] True False tree_world)) \<and>
   tar_has_members toy_ext True
     (fs (snd (archive toy_ext [''d''] [''x.tar.zst''] True False tree_world))) [''x.tar.zst''] \<and>
   same_bar_monotone
     (reported (extract_archive toy_ext [''x.tar.zst''] [''out''] True False)
        (snd (archive toy_ext [''d''] [''x.tar.zst''] True False tree_world))) \<and>
   ends_at_total
     (reported (extract_archive toy_ext [''x.tar.zst''] [''out''] True False)
        (snd (archive toy_ext [''d''] [''x.tar.zst''] True False tree_world)))"
proof -
  let ?n = "Dir [(''a'', Dir [(''b.txt'', File [1, 2]), (''c'', Dir [(''d.txt'', File [3])])])]"
  let ?ms = "create_tar_archive (fs tree_world) [''d'']"
  let ?w1 = "snd (archive toy_ext [''d''] [''x.tar.zst''] True False tree_world)"
  have src: "lookup (fs tree_world) [''d''] = Some ?n"
    by (simp add: tree_world_def)
  have wf: "wf_node ?n"
    by simp
  have wr: "writable (fs tree_world) [''x.tar.zst'']"
    by (simp add: writable_def tree_world_def is_dir_def)
  have single: "Tar = Single \<longrightarrow> \<not> is_Dir ?n"
    and bz2: "Tar = Tar \<and> Zst = Bz2 \<longrightarrow> \<not> is_Dir ?n \<and> [''d''] \<noteq> [''x.tar.zst'']"
    by simp_all
  from archive_writes [OF src fmt_x_tar_zst single bz2 wr, of toy_ext True False]
  obtain ra w1 where ar: "archive toy_ext [''d''] [''x.tar.zst''] True False tree_world = (Ok ra, w1)"
    and e1: "stderr w1 = stderr tree_world"
    and l1: "lookup (fs w1) [''x.tar.zst''] =
               Some (File (written toy_ext Zst
                  (archive_payload toy_ext (fs tree_world) [''d''] Tar) True))"
    and o: "\<forall>q. \<not> prefix q [''x.tar.zst''] \<longrightarrow> lookup (fs w1) q = lookup (fs tree_world) q"
    and d: "\<forall>q. strict_prefix q [''x.tar.zst''] \<longrightarrow> is_dir (fs w1) q"
    by blast
  have ca: "completes (archive toy_ext [''d''] [''x.tar.zst''] True False) tree_world"
    using ar e1 by (rule completesI)
  have w1: "?w1 = w1"
    using ar by simp
  have p: "archive_payload toy_ext (fs tree_world) [''d''] Tar = tar_write toy_ext ?ms"
    by (simp add: archive_payload_def)
  have fr: "fresh (fs ?w1) [''out'']"
    by (rule fresh_after_archive [OF ar o d]) (simp_all add: tree_world_def)
  have fm: "file_members (source_view ?n [''d'']) ?ms"
    using src wf by (rule create_tar_archive_sound)
  have sd: "is_Dir (source_view ?n [''d''])"
    by (simp add: source_view_def is_Dir_def)
  have dec: "decoded toy_ext Zst True (written toy_ext Zst (tar_write toy_ext ?ms) True) =
               Ok (tar_write toy_ext ?ms)"
    by (simp add: toy_written toy_decoded)
  from extract_tar [OF l1 [unfolded p] xfmt_x_tar_zst dec toy_tar fr [unfolded w1] fm sd,
      of False]
  obtain re w2 where ex: "extract_archive toy_ext [''x.tar.zst''] [''out''] True False w1 = (Ok re, w2)"
    and e2: "stderr w2 = stderr w1"
    by blast
  have ce: "completes (extract_archive toy_ext [''x.tar.zst''] [''out''] True False) ?w1"
    unfolding w1 using ex e2 by (rule completesI)
  have "lookup (source_view ?n [''d'']) [''a'', ''b.txt''] = Some (File [1, 2])"
    by (simp add: source_view_def)
  from create_tar_archive_complete [OF src this] have ne: "?ms \<noteq> []"
    by auto
  have hm: "tar_has_members toy_ext True (fs ?w1) [''x.tar.zst'']"
    using l1 ne unfolding w1 p
    by (simp add: tar_has_members_def xfmt_x_tar_zst member_count_def toy_members)
  from progress_per_bar_monotone
    [of toy_ext "[''d'']" "[''x.tar.zst'']" True False tree_world "[''x.tar.zst'']" "[''out'']"
        True False ?w1]
    ca ce hm
  show ?thesis
    by simp
qed

text \<open>
  C6 as stated fails. Archiving the file \<^verbatim>\<open>a.txt\<close> to \<^verbatim>\<open>x.tar.bz2\<close> with progress
  reports the counts 1 (of 1, archiving), then 0 and 1 (of 1, compressing): the sequence
  of counts over the run decreases. Extracting a \<^verbatim>\<open>.tar.bz2\<close> archive without members
  reports 0 of 1 and nothing after it.
\<close>

theorem phases_restart_the_count:
  "completes (archive toy_ext [''a.txt''] [''x.tar.bz2''] True False) file_world \<and>
   reported (archive toy_ext [''a.txt''] [''x.tar.bz2''] True False) file_world =
     [(Archiving, 1, 1), (Compressing, 0, 1), (Compressing, 1, 1)] \<and>
   completes (extract_archive toy_ext [''e.tar.bz2''] [''out''] True False) empty_tar_world \<and>
   reported (extract_archive toy_ext [''e.tar.bz2''] [''out''] True False) empty_tar_world =
     [(Unpacking, 0, 1)]"
proof -
  have src: "lookup (fs file_world) [''a.txt''] = Some (File [1, 2, 3])"
    by (simp add: file_world_def)
  have wr: "writable (fs file_world) [''x.tar.bz2'']"
    by (simp add: writable_def file_world_def is_dir_def)
  have single: "Tar = Single \<longrightarrow> \<not> is_Dir (File [1, 2, 3])"
    and bz2: "Tar = Tar \<and> Bz2 = Bz2 \<longrightarrow> \<not> is_Dir (File [1, 2, 3]) \<and> [''a.txt''] \<noteq> [''x.tar.bz2'']"
    by (simp_all add: is_Dir_def)
  from archive_writes [OF src fmt_x_tar_bz2 single bz2 wr, of toy_ext True False]
  obtain ra w1 where ar: "archive toy_ext [''a.txt''] [''x.tar.bz2''] True False file_world = (Ok ra, w1)"
    and e1: "stderr w1 = stderr file_world"
    by blast
  have ca: "completes (archive toy_ext [''a.txt''] [''x.tar.bz2''] True False) file_world"
    using ar e1 by (rule completesI)
  have k: "count_files (fs file_world) [''a.txt''] = 1"
    by (simp add: count_files_def is_file_def file_world_def)
  from archive_reported [OF ca] fmt_x_tar_bz2 k
  have ra: "reported (archive toy_ext [''a.txt''] [''x.tar.bz2''] True False) file_world =
     [(Archiving, 1, 1), (Compressing, 0, 1), (Compressing, 1, 1)]"
    by (auto simp: archive_bars_def tar_bars_def bz2_bars_def)
  have a: "lookup (fs empty_tar_world) [''e.tar.bz2''] =
             Some (File (written toy_ext Bz2 (tar_write toy_ext []) True))"
    by (simp add: empty_tar_world_def toy_written) (simp add: toy_ext_def toy_tar_write_def put_nat_def)
  have dec: "decoded toy_ext Bz2 True (written toy_ext Bz2 (tar_write toy_ext []) True) =
               Ok (tar_write toy_ext [])"
    by (simp add: toy_written toy_decoded)
  have fr: "fresh (fs empty_tar_world) [''out'']"
    by (simp add: fresh_def empty_tar_world_def exists_def is_file_def)
  have fm: "file_members (Dir []) []"
    by (simp add: file_members_def)
  have sd: "is_Dir (Dir [])"
    by (simp add: is_Dir_def)
  from extract_tar [OF a fmt_e_tar_bz2 dec toy_tar fr fm sd, of False]
  obtain re w2
    where ex: "extract_archive toy_ext [''e.tar.bz2''] [''out''] True False empty_tar_world = (Ok re, w2)"
      and e2: "stderr w2 = stderr empty_tar_world"
    by blast
  have ce: "completes (extract_archive toy_ext [''e.tar.bz2''] [''out''] True False) empty_tar_world"
    using ex e2 by (rule completesI)
  have mc: "member_count toy_ext True Bz2 (written toy_ext Bz2 (tar_write toy_ext []) True) = 0"
    by (simp add: member_count_def toy_members)
  from extract_reported [OF ce] a fmt_e_tar_bz2 mc
  have re: "reported (extract_archive toy_ext [''e.tar.bz2''] [''out''] True False) empty_tar_world =
     [(Unpacking, 0, 1)]"
    by (auto simp: extract_bars_def)
  from ca ra ce re show ?thesis
    by simp
qed

end
